theory Spec2Isabelle
  imports Main "HOL-Library.AList" "HOL-Library.Multiset"
begin

section \<open>The keyed data adapter of motown.js\<close>

text \<open>
  The development embeds \<^verbatim>\<open>keyedDataAdapter\<close> and the closures that
  \<^verbatim>\<open>MT.UI.KeyedDataSource\<close> puts around it (src/motown.js, lines 651-972).
  The adapter holds an array \<^verbatim>\<open>_items\<close> of record objects and an object
  \<^verbatim>\<open>_keyMap\<close> from keys to the same record objects. Both refer to one object per
  record, and the move operations write the fields \<^verbatim>\<open>index\<close> and \<^verbatim>\<open>_moved\<close> of
  that object, so records live in an explicit heap and the array and the key map hold
  references.
\<close>

subsection \<open>Values\<close>

text \<open>
  A key is what \<^verbatim>\<open>items[i][keyProperty]\<close> or the caller hands over. The host list
  control takes string keys only; \<^verbatim>\<open>undefined\<close> (a payload without the key property)
  and \<^verbatim>\<open>null\<close> (the predecessor of the first record in \<^verbatim>\<open>sort\<close>) are kept
  because the code tests keys for truthiness. \<open>propName\<close> is the property name under
  which \<^verbatim>\<open>_keyMap[key]\<close> stores a key.
\<close>

datatype jskey = KUndefined | KNull | KStr string

fun truthy :: "jskey \<Rightarrow> bool" where
  "truthy KUndefined = False"
| "truthy KNull = False"
| "truthy (KStr s) = (s \<noteq> [])"

fun propName :: "jskey \<Rightarrow> string" where
  "propName KUndefined = ''undefined''"
| "propName KNull = ''null''"
| "propName (KStr s) = s"

text \<open>
  \<^verbatim>\<open>_keyMap\<close> is created as \<^verbatim>\<open>{}\<close>, so a read \<^verbatim>\<open>_keyMap[key]\<close> that no entry
  of the map answers goes on to \<^verbatim>\<open>Object.prototype\<close>. These are the names an engine's
  \<^verbatim>\<open>Object.prototype\<close> may define (the members of the language standard and the
  legacy accessors); for them such a read yields the inherited member, not
  \<^verbatim>\<open>undefined\<close>. A write \<^verbatim>\<open>_keyMap[key] = item\<close> makes an entry under every name
  but \<^verbatim>\<open>__proto__\<close>: that one goes to the inherited accessor, which makes the record
  the prototype of the map and no entry.
\<close>

definition inheritedNames :: "string list" where
  "inheritedNames =
     [''constructor'', ''toString'', ''toLocaleString'', ''valueOf'', ''hasOwnProperty'',
      ''isPrototypeOf'', ''propertyIsEnumerable'', ''__proto__'', ''__defineGetter__'',
      ''__defineSetter__'', ''__lookupGetter__'', ''__lookupSetter__'']"

definition inheritedName :: "string \<Rightarrow> bool" where
  "inheritedName n = (n \<in> set inheritedNames)"

definition protoAccessor :: "string \<Rightarrow> bool" where
  "protoAccessor n = (n = ''__proto__'')"

definition plainKey :: "jskey \<Rightarrow> bool" where
  "plainKey k = (\<not> inheritedName (propName k))"

type_synonym ref = nat

text \<open>
  A record object \<^verbatim>\<open>{key, data}\<close>, with the two optional fields the moves use:
  \<open>index\<close> is \<open>None\<close> while the object has no numeric \<^verbatim>\<open>index\<close> property,
  \<open>moved\<close> is the \<^verbatim>\<open>_moved\<close> marker (absent or deleted is \<open>False\<close>).
\<close>

record 'd item =
  key :: jskey
  data :: 'd
  index :: "int option"
  moved :: bool

text \<open>
  \<open>DoesNotExist\<close> and \<open>TypeError\<close> are what the program returns or throws.
  \<open>InheritedMember k\<close> is not an error of the program: it marks a read \<^verbatim>\<open>_keyMap[k]\<close>
  that no entry answers, for an inherited name, and a write \<^verbatim>\<open>_keyMap[k] = item\<close>
  for \<^verbatim>\<open>__proto__\<close>. The source then goes on: after the read, with the inherited
  member in place of a record (\<^verbatim>\<open>itemsFromKey\<close> succeeds with the member's
  \<^verbatim>\<open>index\<close>, the moves write \<^verbatim>\<open>index\<close> on it, and \<^verbatim>\<open>moveToEnd\<close> and
  \<^verbatim>\<open>moveAfter\<close> splice it into \<^verbatim>\<open>_items\<close>); after the write, with a map whose
  prototype is the record. The sequence of this model holds records only and its key
  map has entries only; the model does not follow the source there and says so with
  this value.
\<close>

datatype error = DoesNotExist "jskey option" | TypeError | InheritedMember jskey

text \<open>Calls that reach the host: the notification handler and the data source's edit methods.\<close>

datatype call = Reload | BeginEdits | EndEdits | CallMoveToStart jskey | CallMoveAfter jskey jskey

text \<open>
  The adapter. \<open>keyProperty\<close> reads the property named \<^verbatim>\<open>_keyProperty\<close> of a
  payload; \<open>binding\<close> is \<open>Some f\<close> when \<^verbatim>\<open>options.binding\<close> is set, \<open>f\<close> being the
  host's \<^verbatim>\<open>WinJS.Binding.as\<close>. \<open>notificationHandler\<close> tells whether
  \<^verbatim>\<open>setNotificationHandler\<close> has installed a handler, and \<open>sink\<close> logs the calls made
  to the host, oldest first.
\<close>

record 'd adapter =
  binding :: "('d \<Rightarrow> 'd) option"
  keyProperty :: "'d \<Rightarrow> jskey"
  heap :: "'d item list"
  items :: "ref list"
  keyMap :: "(string \<times> ref) list"
  editing :: bool
  notificationHandler :: bool
  sink :: "call list"

text \<open>The argument of the constructor and of \<^verbatim>\<open>setData\<close>: an array (whose elements are
  payload objects, or \<^verbatim>\<open>null\<close>/\<^verbatim>\<open>undefined\<close>, written \<open>None\<close>) or anything else.\<close>

datatype 'd jsarg = JArray "'d option list" | JNotArray

record fetchResult =
  fetched :: "ref list"
  offset :: "int option"
  absoluteIndex :: "int option"
  totalCount :: nat

subsection \<open>Array primitives of the language\<close>

text \<open>\<^verbatim>\<open>Array.prototype.splice\<close> clamps its start: a negative start counts from the end.\<close>

definition clampStart :: "int \<Rightarrow> nat \<Rightarrow> nat" where
  "clampStart start len =
     (if start < 0 then nat (max (int len + start) 0) else min (nat start) len)"

definition spliceInsert :: "int \<Rightarrow> 'a \<Rightarrow> 'a list \<Rightarrow> 'a list" where
  \<comment> \<open>\<^verbatim>\<open>xs.splice(start, 0, x)\<close>\<close>
  "spliceInsert start x xs =
     (let k = clampStart start (length xs) in take k xs @ x # drop k xs)"

definition spliceRemove :: "int \<Rightarrow> 'a list \<Rightarrow> 'a list" where
  \<comment> \<open>\<^verbatim>\<open>xs.splice(start, 1)\<close>\<close>
  "spliceRemove start xs =
     (let k = clampStart start (length xs) in take k xs @ drop (Suc k) xs)"

text \<open>
  \<^verbatim>\<open>Array.prototype.sort\<close> with a comparison function, as a stable insertion sort
  (the language requires the sort to be stable; the comparator's sign decides).
\<close>

fun sortInsert :: "('a \<Rightarrow> 'a \<Rightarrow> int) \<Rightarrow> 'a \<Rightarrow> 'a list \<Rightarrow> 'a list" where
  "sortInsert c x [] = [x]"
| "sortInsert c x (y # ys) = (if c x y \<le> 0 then x # y # ys else y # sortInsert c x ys)"

definition arraySort :: "('a \<Rightarrow> 'a \<Rightarrow> int) \<Rightarrow> 'a list \<Rightarrow> 'a list" where
  "arraySort c xs = foldr (sortInsert c) xs []"

subsection \<open>The adapter's methods\<close>

definition beginEdits :: "'d adapter \<Rightarrow> 'd adapter" where
  "beginEdits s = s\<lparr>editing := True\<rparr>"

definition endEdits :: "'d adapter \<Rightarrow> 'd adapter" where
  "endEdits s = s\<lparr>editing := False\<rparr>"

definition setNotificationHandler :: "'d adapter \<Rightarrow> 'd adapter" where
  "setNotificationHandler s = s\<lparr>notificationHandler := True\<rparr>"

definition getCount :: "'d adapter \<Rightarrow> nat" where
  "getCount s = length (items s)"

definition itemsFromIndex :: "int \<Rightarrow> int \<Rightarrow> int \<Rightarrow> 'd adapter \<Rightarrow> error + fetchResult" where
  "itemsFromIndex requestIndex countBefore countAfter s =
     (let len = length (items s) in
      if requestIndex \<ge> int len \<or> requestIndex < 0 then Inl (DoesNotExist None)
      else Inr \<lparr>fetched = take len (items s), offset = Some requestIndex,
                absoluteIndex = None, totalCount = len\<rparr>)"

definition itemsFromKey :: "jskey \<Rightarrow> int \<Rightarrow> int \<Rightarrow> 'd adapter \<Rightarrow> error + fetchResult" where
  "itemsFromKey k countBefore countAfter s =
     (case map_of (keyMap s) (propName k) of
        None \<Rightarrow>
          if inheritedName (propName k) then Inl (InheritedMember k)
          else Inl (DoesNotExist (Some k))
      | Some r \<Rightarrow>
          Inr \<lparr>fetched = take (length (items s)) (items s), offset = index (heap s ! r),
               absoluteIndex = index (heap s ! r), totalCount = length (items s)\<rparr>)"

definition insertAtEnd :: "jskey \<Rightarrow> 'd \<Rightarrow> 'd adapter \<Rightarrow> error + ref \<times> 'd adapter" where
  "insertAtEnd k d s =
     (let it = \<lparr>key = (if truthy k then k else keyProperty s d), data = d,
                index = None, moved = False\<rparr>;
          r = length (heap s)
      in if protoAccessor (propName (key it)) then Inl (InheritedMember (key it))
         else Inr (r, s\<lparr>heap := heap s @ [it], items := items s @ [r],
                        keyMap := AList.update (propName (key it)) r (keyMap s)\<rparr>))"

text \<open>\<^verbatim>\<open>_findIndex\<close>: the position of the first element identical to the record, or -1.\<close>

fun findIndexFrom :: "nat \<Rightarrow> 'a \<Rightarrow> 'a list \<Rightarrow> int" where
  "findIndexFrom i x [] = - 1"
| "findIndexFrom i x (y # ys) = (if x = y then int i else findIndexFrom (Suc i) x ys)"

definition findIndex :: "ref \<Rightarrow> 'd adapter \<Rightarrow> int" where
  "findIndex r s = findIndexFrom 0 r (items s)"

definition clearMoved :: "ref \<Rightarrow> 'd adapter \<Rightarrow> 'd adapter" where
  \<comment> \<open>\<^verbatim>\<open>delete item._moved\<close>\<close>
  "clearMoved r s = s\<lparr>heap := (heap s)[r := (heap s ! r)\<lparr>moved := False\<rparr>]\<rparr>"

definition assignIndex :: "ref \<Rightarrow> 'd adapter \<Rightarrow> 'd adapter" where
  \<comment> \<open>\<^verbatim>\<open>if (typeof item.index !== 'number') item.index = this._findIndex(item)\<close>\<close>
  "assignIndex r s =
     (case index (heap s ! r) of
        Some v \<Rightarrow> s
      | None \<Rightarrow> s\<lparr>heap := (heap s)[r := (heap s ! r)\<lparr>index := Some (findIndex r s)\<rparr>]\<rparr>)"

text \<open>A move on a key for which \<^verbatim>\<open>_keyMap[key]\<close> is \<^verbatim>\<open>undefined\<close> reads a field of
  \<^verbatim>\<open>undefined\<close> and throws before anything is written.\<close>

definition moveAfter :: "jskey \<Rightarrow> jskey \<Rightarrow> int \<Rightarrow> int \<Rightarrow> 'd adapter \<Rightarrow> error + 'd adapter" where
  "moveAfter k prevKey currIdx prevItemIdx s =
     (case map_of (keyMap s) (propName k) of
        None \<Rightarrow>
          if inheritedName (propName k) then Inl (InheritedMember k) else Inl TypeError
      | Some r \<Rightarrow>
          (let newIdx = prevItemIdx + 1;
               delta = (if newIdx > currIdx then 0 else 1)
           in if moved (heap s ! r) then Inr (clearMoved r s)
              else Inr (s\<lparr>items := spliceRemove (currIdx + delta)
                                      (spliceInsert newIdx r (items s))\<rparr>)))"

definition moveToStart :: "jskey \<Rightarrow> 'd adapter \<Rightarrow> error + 'd adapter" where
  "moveToStart k s =
     (case map_of (keyMap s) (propName k) of
        None \<Rightarrow>
          if inheritedName (propName k) then Inl (InheritedMember k) else Inl TypeError
      | Some r \<Rightarrow>
          (let s1 = assignIndex r s
           in if moved (heap s1 ! r) then Inr (clearMoved r s1)
              else (case index (heap s1 ! r) of
                      None \<Rightarrow> Inr s1
                    | Some i \<Rightarrow>
                        if i > 0
                        then Inr (s1\<lparr>items := spliceInsert 0 r (spliceRemove i (items s1))\<rparr>)
                        else Inr s1)))"

definition moveToEnd :: "jskey \<Rightarrow> 'd adapter \<Rightarrow> error + 'd adapter" where
  "moveToEnd k s =
     (case map_of (keyMap s) (propName k) of
        None \<Rightarrow>
          if inheritedName (propName k) then Inl (InheritedMember k) else Inl TypeError
      | Some r \<Rightarrow>
          (let s1 = assignIndex r s
           in if moved (heap s1 ! r) then Inr (clearMoved r s1)
              else (case index (heap s1 ! r) of
                      None \<Rightarrow> Inr s1
                    | Some i \<Rightarrow>
                        if i < int (length (items s1)) - 1
                        then Inr (s1\<lparr>items := spliceRemove i (items s1) @ [r]\<rparr>)
                        else Inr s1)))"

text \<open>\<^verbatim>\<open>remove\<close> does nothing when \<^verbatim>\<open>_keyMap[key]\<close> is \<^verbatim>\<open>undefined\<close>; it does
  nothing either when the read yields an inherited member: that has no \<^verbatim>\<open>index\<close>
  of its own and is not in \<^verbatim>\<open>_items\<close>, so \<^verbatim>\<open>_findIndex\<close> gives -1.\<close>

definition removeKey :: "jskey \<Rightarrow> 'd adapter \<Rightarrow> 'd adapter" where
  \<comment> \<open>\<^verbatim>\<open>remove\<close>\<close>
  "removeKey k s =
     (case map_of (keyMap s) (propName k) of
        None \<Rightarrow> s
      | Some r \<Rightarrow>
          (let idx = (case index (heap s ! r) of Some v \<Rightarrow> v | None \<Rightarrow> findIndex r s)
           in if idx \<ge> 0
              then s\<lparr>items := spliceRemove idx (items s),
                     keyMap := AList.delete (propName k) (keyMap s)\<rparr>
              else s))"

text \<open>The loop of \<^verbatim>\<open>_initItems\<close>: each payload becomes a record object, entered in the
  key map under its key; a \<^verbatim>\<open>null\<close> element throws on the property read.
  \<^verbatim>\<open>_initItems\<close> starts from an empty sequence and key map; the records of the
  sequence it replaces are no longer reachable from the adapter, and the heap, which
  holds the adapter's records only, starts empty as well.\<close>

fun initLoop :: "'d option list \<Rightarrow> 'd adapter \<Rightarrow> error + 'd adapter" where
  "initLoop [] s = Inr s"
| "initLoop (None # xs) s = Inl TypeError"
| "initLoop (Some x # xs) s =
     (let k = keyProperty s x;
          it = \<lparr>key = k, data = (case binding s of Some f \<Rightarrow> f x | None \<Rightarrow> x),
                index = None, moved = False\<rparr>;
          r = length (heap s)
      in if protoAccessor (propName k) then Inl (InheritedMember k)
         else initLoop xs (s\<lparr>heap := heap s @ [it], items := items s @ [r],
                              keyMap := AList.update (propName k) r (keyMap s)\<rparr>))"

definition initItems :: "'d jsarg \<Rightarrow> bool \<Rightarrow> 'd adapter \<Rightarrow> error + 'd adapter" where
  "initItems arg preventReload s =
     (let xs = (case arg of JArray ys \<Rightarrow> ys | JNotArray \<Rightarrow> [])
      in case initLoop xs (s\<lparr>heap := [], items := [], keyMap := []\<rparr>) of
           Inl e \<Rightarrow> Inl e
         | Inr s' \<Rightarrow>
             if preventReload then Inr s'
             else if notificationHandler s' then Inr (s'\<lparr>sink := sink s' @ [Reload]\<rparr>)
             else Inl TypeError)"

definition keyedDataAdapter ::
  "'d jsarg \<Rightarrow> ('d \<Rightarrow> 'd) option \<Rightarrow> ('d \<Rightarrow> jskey) \<Rightarrow> error + 'd adapter" where
  "keyedDataAdapter arg b kp =
     initItems arg True
       \<lparr>binding = b, keyProperty = kp, heap = [], items = [], keyMap = [],
        editing = False, notificationHandler = False, sink = []\<rparr>"

subsection \<open>The data source around the adapter\<close>

text \<open>
  \<^verbatim>\<open>KeyedDataSource\<close> derives from the host's \<^verbatim>\<open>WinJS.UI.VirtualizedDataSource\<close>,
  which is not part of the source. Its constructor installs the notification handler in
  the adapter. Its edit methods, which \<^verbatim>\<open>sort\<close> calls on \<^verbatim>\<open>this\<close>, hand each
  edit to the adapter method of the same name; here they log the call and forward it.
  The index hints the host adds to \<^verbatim>\<open>moveAfter\<close> are a parameter.
\<close>

type_synonym 'd hints = "'d adapter \<Rightarrow> jskey \<Rightarrow> jskey \<Rightarrow> int \<times> int"

definition KeyedDataSource ::
  "'d jsarg \<Rightarrow> ('d \<Rightarrow> 'd) option \<Rightarrow> ('d \<Rightarrow> jskey) \<Rightarrow> error + 'd adapter" where
  "KeyedDataSource arg b kp =
     (case keyedDataAdapter arg b kp of
        Inl e \<Rightarrow> Inl e
      | Inr s \<Rightarrow> Inr (setNotificationHandler s))"

definition hostBeginEdits :: "'d adapter \<Rightarrow> 'd adapter" where
  "hostBeginEdits s = beginEdits (s\<lparr>sink := sink s @ [BeginEdits]\<rparr>)"

definition hostEndEdits :: "'d adapter \<Rightarrow> 'd adapter" where
  "hostEndEdits s = endEdits (s\<lparr>sink := sink s @ [EndEdits]\<rparr>)"

definition hostMoveToStart :: "jskey \<Rightarrow> 'd adapter \<Rightarrow> error + 'd adapter" where
  "hostMoveToStart k s = moveToStart k (s\<lparr>sink := sink s @ [CallMoveToStart k]\<rparr>)"

definition hostMoveAfter :: "'d hints \<Rightarrow> jskey \<Rightarrow> jskey \<Rightarrow> 'd adapter \<Rightarrow> error + 'd adapter" where
  "hostMoveAfter h k prevKey s =
     (let s1 = s\<lparr>sink := sink s @ [CallMoveAfter k prevKey]\<rparr>
      in moveAfter k prevKey (fst (h s k prevKey)) (snd (h s k prevKey)) s1)"

definition getKeys :: "'d adapter \<Rightarrow> string list" where
  "getKeys s = map fst (keyMap s)"

definition getByKey :: "jskey \<Rightarrow> 'd adapter \<Rightarrow> 'd option" where
  \<comment> \<open>\<^verbatim>\<open>get\<close>\<close>
  "getByKey k s = map_option (\<lambda>r. data (heap s ! r)) (map_of (keyMap s) (propName k))"

definition getAt :: "int \<Rightarrow> 'd adapter \<Rightarrow> 'd option" where
  "getAt idx s =
     (if 0 \<le> idx \<and> idx < int (length (items s))
      then Some (data (heap s ! (items s ! nat idx))) else None)"


text \<open>The body of the scan of \<^verbatim>\<open>sort\<close> at position \<open>i\<close>: a record whose \<^verbatim>\<open>index\<close>
  is not \<open>i\<close> is marked and reported to the data source as moved.\<close>

definition sortVisit :: "'d hints \<Rightarrow> nat \<Rightarrow> 'd adapter \<Rightarrow> error + 'd adapter" where
  "sortVisit h i s =
     (if i < length (items s) then
        (let r = items s ! i
         in if index (heap s ! r) \<noteq> Some (int i) then
              (let prevKey = (if i = 0 then KNull else key (heap s ! (items s ! (i - 1))));
                   k = key (heap s ! r);
                   s1 = s\<lparr>heap := (heap s)[r := (heap s ! r)\<lparr>moved := True\<rparr>]\<rparr>
               in if \<not> truthy prevKey then hostMoveToStart k s1
                  else hostMoveAfter h k prevKey s1)
            else Inr s)
      else Inl TypeError)"

text \<open>The scan over positions \<open>i, i+1, ...\<close>, \<open>n\<close> of them left.\<close>

fun sortReplay :: "'d hints \<Rightarrow> nat \<Rightarrow> nat \<Rightarrow> 'd adapter \<Rightarrow> error + 'd adapter" where
  "sortReplay h i 0 s = Inr s"
| "sortReplay h i (Suc n) s =
     (case sortVisit h i s of
        Inl e \<Rightarrow> Inl e
      | Inr s2 \<Rightarrow> sortReplay h (Suc i) n s2)"

definition sortDS :: "'d hints \<Rightarrow> ('d \<Rightarrow> 'd \<Rightarrow> int) \<Rightarrow> 'd adapter \<Rightarrow> error + 'd adapter" where
  \<comment> \<open>\<^verbatim>\<open>sort\<close>\<close>
  "sortDS h sortFn s =
     (let len = length (items s);
          wasEditing = editing s;
          s1 = s\<lparr>items := arraySort (\<lambda>a b. sortFn (data (heap s ! a)) (data (heap s ! b)))
                                     (items s)\<rparr>;
          s2 = (if \<not> wasEditing then hostBeginEdits s1 else s1)
      in case sortReplay h 0 len s2 of
           Inl e \<Rightarrow> Inl e
         | Inr s3 \<Rightarrow> Inr (if \<not> wasEditing then hostEndEdits s3 else s3))"

subsection \<open>Sequences of operations\<close>

datatype 'd operation =
    InsertAtEnd jskey 'd
  | Remove jskey
  | MoveToStart jskey
  | MoveToEnd jskey
  | MoveAfter jskey jskey int int

fun applyOp :: "'d operation \<Rightarrow> 'd adapter \<Rightarrow> error + 'd adapter" where
  "applyOp (InsertAtEnd k d) s = map_sum id snd (insertAtEnd k d s)"
| "applyOp (Remove k) s = Inr (removeKey k s)"
| "applyOp (MoveToStart k) s = moveToStart k s"
| "applyOp (MoveToEnd k) s = moveToEnd k s"
| "applyOp (MoveAfter k prevKey currIdx prevItemIdx) s = moveAfter k prevKey currIdx prevItemIdx s"

text \<open>
  The store after an operation. An operation that throws does so before it writes, so
  the store stays as it was. Where the model does not follow the source
  (\<open>InheritedMember\<close>) the store after the operation is not known to the model;
  \<open>step\<close> then returns its argument by convention, and \<open>opOk\<close> below rules these
  operations out.
\<close>

definition step :: "'d operation \<Rightarrow> 'd adapter \<Rightarrow> 'd adapter" where
  "step opn s = (case applyOp opn s of Inl e \<Rightarrow> s | Inr s' \<Rightarrow> s')"


definition andThen :: "error + 'a \<Rightarrow> ('a \<Rightarrow> error + 'b) \<Rightarrow> error + 'b" where
  "andThen m f = (case m of Inl e \<Rightarrow> Inl e | Inr x \<Rightarrow> f x)"

subsection \<open>The invariant of the two indices\<close>

definition keyOf :: "'d adapter \<Rightarrow> ref \<Rightarrow> string" where
  "keyOf s r = propName (key (heap s ! r))"

text \<open>
  Every key of the mapping names exactly one record of the sequence, the one the mapping
  holds for it, and every record of the sequence is in the mapping under its key.
\<close>

definition inBijection :: "'d adapter \<Rightarrow> bool" where
  "inBijection s =
     (distinct (map fst (keyMap s)) \<and>
      (\<forall>(k, r) \<in> set (keyMap s). filter (\<lambda>r'. keyOf s r' = k) (items s) = [r]) \<and>
      (\<forall>r \<in> set (items s). r < length (heap s) \<and> (keyOf s r, r) \<in> set (keyMap s)))"

text \<open>The same invariant in the form the proofs use.\<close>

definition wellFormed :: "'d adapter \<Rightarrow> bool" where
  "wellFormed s =
     (distinct (items s) \<and> distinct (map fst (keyMap s)) \<and>
      (\<forall>r \<in> set (items s). r < length (heap s) \<and> map_of (keyMap s) (keyOf s r) = Some r) \<and>
      (\<forall>k r. map_of (keyMap s) k = Some r \<longrightarrow> r \<in> set (items s) \<and> keyOf s r = k))"

text \<open>The payloads and the keys of a store in sequence order.\<close>

definition payloads :: "'d adapter \<Rightarrow> 'd list" where
  "payloads s = map (\<lambda>r. data (heap s ! r)) (items s)"

definition keysInOrder :: "'d adapter \<Rightarrow> jskey list" where
  "keysInOrder s = map (\<lambda>r. key (heap s ! r)) (items s)"

text \<open>A record's cached index is current when it is unset or equals the record's position.\<close>

definition current :: "'d adapter \<Rightarrow> ref \<Rightarrow> bool" where
  "current s r = (case index (heap s ! r) of None \<Rightarrow> True | Some v \<Rightarrow> v = findIndex r s)"

text \<open>
  What an operation needs for the invariant to survive it: the key it names is not an
  inherited name, an inserted key is new, a record that is moved to an end or removed
  has a current cached index, and \<^verbatim>\<open>moveAfter\<close> is given the true positions of its two
  records.
\<close>

fun opOk :: "'d operation \<Rightarrow> 'd adapter \<Rightarrow> bool" where
  "opOk (InsertAtEnd k d) s =
     (plainKey (if truthy k then k else keyProperty s d) \<and>
      map_of (keyMap s) (propName (if truthy k then k else keyProperty s d)) = None)"
| "opOk (Remove k) s =
     (plainKey k \<and>
      (case map_of (keyMap s) (propName k) of None \<Rightarrow> True | Some r \<Rightarrow> current s r))"
| "opOk (MoveToStart k) s =
     (plainKey k \<and>
      (case map_of (keyMap s) (propName k) of None \<Rightarrow> True | Some r \<Rightarrow> current s r))"
| "opOk (MoveToEnd k) s =
     (plainKey k \<and>
      (case map_of (keyMap s) (propName k) of None \<Rightarrow> True | Some r \<Rightarrow> current s r))"
| "opOk (MoveAfter k prevKey currIdx prevItemIdx) s =
     (plainKey k \<and>
      (case map_of (keyMap s) (propName k) of
         None \<Rightarrow> True
       | Some r \<Rightarrow>
           (case map_of (keyMap s) (propName prevKey) of
              None \<Rightarrow> False
            | Some p \<Rightarrow> currIdx = findIndex r s \<and> prevItemIdx = findIndex p s)))"

fun opsOk :: "'d operation list \<Rightarrow> 'd adapter \<Rightarrow> bool" where
  "opsOk [] s = True"
| "opsOk (opn # ops) s = (opOk opn s \<and> opsOk ops (step opn s))"

subsection \<open>What the scan of sort reports\<close>

text \<open>
  The call the scan makes for position \<open>i\<close>, the test that decides whether it makes one,
  and the calls of the positions \<open>i, ..., i + n - 1\<close> in order.
\<close>

definition callAt :: "'d adapter \<Rightarrow> nat \<Rightarrow> call" where
  "callAt s i =
     (let prevKey = (if i = 0 then KNull else key (heap s ! (items s ! (i - 1))));
          k = key (heap s ! (items s ! i))
      in if \<not> truthy prevKey then CallMoveToStart k else CallMoveAfter k prevKey)"

definition staleAt :: "'d adapter \<Rightarrow> nat \<Rightarrow> bool" where
  "staleAt s i = (index (heap s ! (items s ! i)) \<noteq> Some (int i))"

definition replayCalls :: "'d adapter \<Rightarrow> nat \<Rightarrow> nat \<Rightarrow> call list" where
  "replayCalls s i n = map (callAt s) (filter (staleAt s) [i..<i + n])"

text \<open>Two stores with the same sequence, mapping and batch flag whose records agree on
  key and payload (they may differ in \<open>index\<close> and \<open>moved\<close>).\<close>

definition sameRecords :: "'d adapter \<Rightarrow> 'd adapter \<Rightarrow> bool" where
  "sameRecords s t =
     (items t = items s \<and> keyMap t = keyMap s \<and> length (heap t) = length (heap s) \<and>
      editing t = editing s \<and>
      (\<forall>r. key (heap t ! r) = key (heap s ! r) \<and> data (heap t ! r) = data (heap s ! r)))"

text \<open>
  A comparator keeps the three-way contract when no two payloads are each greater than
  the other; a list is ordered when each element is at most its successor.
\<close>

definition threeWay :: "('a \<Rightarrow> 'a \<Rightarrow> int) \<Rightarrow> bool" where
  "threeWay c = (\<forall>x y. c x y \<le> 0 \<or> c y x \<le> 0)"

fun ordered :: "('a \<Rightarrow> 'a \<Rightarrow> int) \<Rightarrow> 'a list \<Rightarrow> bool" where
  "ordered c [] = True"
| "ordered c [x] = True"
| "ordered c (x # y # ys) = (c x y \<le> 0 \<and> ordered c (y # ys))"

text \<open>The move operations, the key a call to the data source reports as moved, and
  whether a list of calls reports a key.\<close>

fun isMove :: "'d operation \<Rightarrow> bool" where
  "isMove (MoveToStart k) = True"
| "isMove (MoveToEnd k) = True"
| "isMove (MoveAfter k prevKey currIdx prevItemIdx) = True"
| "isMove opn = False"

fun movedKey :: "call \<Rightarrow> jskey option" where
  "movedKey (CallMoveToStart k) = Some k"
| "movedKey (CallMoveAfter k prevKey) = Some k"
| "movedKey c = None"

definition reported :: "call list \<Rightarrow> jskey \<Rightarrow> bool" where
  "reported calls k = (Some k \<in> set (map movedKey calls))"

subsection \<open>The scenario of the specification\<close>

text \<open>Payloads \<^verbatim>\<open>{key: k, v: n}\<close> as pairs; the store built from
  \<^verbatim>\<open>[{key:"a",v:3},{key:"b",v:1},{key:"c",v:2}]\<close>; the comparator
  \<^verbatim>\<open>(x,y) => x.v - y.v\<close>.\<close>

type_synonym payload = "string \<times> int"

definition keyField :: "payload \<Rightarrow> jskey" where
  "keyField d = KStr (fst d)"

definition byV :: "payload \<Rightarrow> payload \<Rightarrow> int" where
  "byV x y = snd x - snd y"


definition store_abc :: "payload adapter" where
  "store_abc =
     \<lparr>binding = None, keyProperty = keyField,
      heap = [\<lparr>key = KStr ''a'', data = (''a'', 3), index = None, moved = False\<rparr>,
              \<lparr>key = KStr ''b'', data = (''b'', 1), index = None, moved = False\<rparr>,
              \<lparr>key = KStr ''c'', data = (''c'', 2), index = None, moved = False\<rparr>],
      items = [0, 1, 2], keyMap = [(''a'', 0), (''b'', 1), (''c'', 2)],
      editing = False, notificationHandler = True, sink = []\<rparr>"

definition noHints :: "payload hints" where
  "noHints s k prevKey = (0, 0)"

text \<open>The store of the scenario after \<^verbatim>\<open>sort((x,y) => x.v - y.v)\<close>.\<close>

definition store_bca :: "payload adapter" where
  "store_bca =
     \<lparr>binding = None, keyProperty = keyField,
      heap = [\<lparr>key = KStr ''a'', data = (''a'', 3), index = None, moved = False\<rparr>,
              \<lparr>key = KStr ''b'', data = (''b'', 1), index = Some 0, moved = False\<rparr>,
              \<lparr>key = KStr ''c'', data = (''c'', 2), index = None, moved = False\<rparr>],
      items = [1, 2, 0], keyMap = [(''a'', 0), (''b'', 1), (''c'', 2)],
      editing = False, notificationHandler = True,
      sink = [BeginEdits, CallMoveToStart (KStr ''b''), CallMoveAfter (KStr ''c'') (KStr ''b''),
              CallMoveAfter (KStr ''a'') (KStr ''c''), EndEdits]\<rparr>"

text \<open>The store of the scenario after \<^verbatim>\<open>moveToStart("c")\<close>.\<close>

definition store_cab :: "payload adapter" where
  "store_cab =
     \<lparr>binding = None, keyProperty = keyField,
      heap = [\<lparr>key = KStr ''a'', data = (''a'', 3), index = None, moved = False\<rparr>,
              \<lparr>key = KStr ''b'', data = (''b'', 1), index = None, moved = False\<rparr>,
              \<lparr>key = KStr ''c'', data = (''c'', 2), index = Some 2, moved = False\<rparr>],
      items = [2, 0, 1], keyMap = [(''a'', 0), (''b'', 1), (''c'', 2)],
      editing = False, notificationHandler = True, sink = []\<rparr>"


section \<open>Arrays: positions and splices\<close>

lemma findIndexFrom_notin: "x \<notin> set xs \<Longrightarrow> findIndexFrom i x xs = - 1"
  by (induction xs arbitrary: i) auto

lemma findIndexFrom_append:
  "x \<notin> set A \<Longrightarrow> findIndexFrom i x (A @ ys) = findIndexFrom (i + length A) x ys"
  by (induction A arbitrary: i) auto

lemma findIndexFrom_split:
  "x \<notin> set A \<Longrightarrow> findIndexFrom i x (A @ x # B) = int (i + length A)"
  by (simp add: findIndexFrom_append)

lemma findIndexFrom_nth:
  "distinct xs \<Longrightarrow> i < length xs \<Longrightarrow> findIndexFrom 0 (xs ! i) xs = int i"
proof -
  assume d: "distinct xs" and i: "i < length xs"
  have xs: "xs = take i xs @ xs ! i # drop (Suc i) xs" using i by (rule id_take_nth_drop)
  have "xs ! i \<notin> set (take i xs)"
    using d i by (metis xs distinct_append disjoint_insert(1) distinct.simps(2) list.simps(15) not_distinct_conv_prefix append.assoc append_Cons)
  then have "findIndexFrom 0 (xs ! i) (take i xs @ xs ! i # drop (Suc i) xs) = int (0 + length (take i xs))"
    by (rule findIndexFrom_split)
  with xs i show ?thesis by simp
qed

lemma findIndexFrom_mem:
  assumes "x \<in> set xs"
  shows "0 \<le> findIndexFrom 0 x xs \<and> findIndexFrom 0 x xs < int (length xs) \<and>
         xs ! nat (findIndexFrom 0 x xs) = x"
proof -
  from assms obtain A B where xs: "xs = A @ x # B" and na: "x \<notin> set A"
    by (meson split_list_first)
  then have "findIndexFrom 0 x xs = int (length A)" by (simp add: findIndexFrom_split)
  with xs show ?thesis by simp
qed

lemma spliceRemove_nat: "spliceRemove (int i) xs = take i xs @ drop (Suc i) xs"
  by (simp add: spliceRemove_def clampStart_def min_def)

lemma spliceInsert_nat: "spliceInsert (int i) x xs = take i xs @ x # drop i xs"
  by (simp add: spliceInsert_def clampStart_def min_def)

lemma mset_remove_nth:
  "i < length xs \<Longrightarrow> mset (take i xs @ drop (Suc i) xs) = mset xs - {#xs ! i#}"
proof -
  assume "i < length xs"
  then have "xs = take i xs @ xs ! i # drop (Suc i) xs" by (rule id_take_nth_drop)
  then have "mset xs = mset (take i xs @ drop (Suc i) xs) + {#xs ! i#}"
    by (metis mset.simps(2) mset_append union_mset_add_mset_right add.right_neutral add_mset_add_single union_assoc)
  then show ?thesis by simp
qed

lemma spliceInsert_at: "spliceInsert (int (length C)) x (C @ B) = C @ x # B"
  by (simp add: spliceInsert_nat)

lemma spliceRemove_at: "spliceRemove (int (length C)) (C @ x # B) = C @ B"
  by (simp add: spliceRemove_nat)

lemma moveAfter_list_backward:
  "spliceRemove (int (length A + 1 + length M) + 1)
     (spliceInsert (int (length A) + 1) r (A @ p # M @ r # B)) = A @ p # r # M @ B"
proof -
  have i: "int (length A) + 1 = int (length (A @ [p]))"
    and l: "A @ p # M @ r # B = (A @ [p]) @ (M @ r # B)" by simp_all
  have j: "int (length A + 1 + length M) + 1 = int (length (A @ p # r # M))"
    and m: "(A @ [p]) @ r # (M @ r # B) = (A @ p # r # M) @ r # B" by simp_all
  show ?thesis
    unfolding i l spliceInsert_at unfolding j m spliceRemove_at by simp
qed

lemma moveAfter_list_forward:
  "spliceRemove (int (length A) + 0)
     (spliceInsert (int (length A + 1 + length M) + 1) r (A @ r # M @ p # B)) = A @ M @ p # r # B"
proof -
  have i: "int (length A + 1 + length M) + 1 = int (length (A @ r # M @ [p]))"
    and l: "A @ r # M @ p # B = (A @ r # M @ [p]) @ B" by simp_all
  have j: "int (length A) + 0 = int (length A)"
    and m: "(A @ r # M @ [p]) @ r # B = A @ r # (M @ p # r # B)" by simp_all
  show ?thesis
    unfolding i l spliceInsert_at unfolding j m spliceRemove_at by simp
qed


lemma two_elems_split:
  assumes "r \<in> set xs" "p \<in> set xs" "r \<noteq> p"
  shows "(\<exists>A M B. xs = A @ p # M @ r # B) \<or> (\<exists>A M B. xs = A @ r # M @ p # B)"
proof -
  from assms(1) obtain A B where xs: "xs = A @ r # B" by (meson split_list)
  with assms have "p \<in> set A \<or> p \<in> set B" by auto
  then show ?thesis
  proof
    assume "p \<in> set A"
    then obtain A1 A2 where "A = A1 @ p # A2" by (meson split_list)
    with xs have "xs = A1 @ p # A2 @ r # B" by simp
    then show ?thesis by blast
  next
    assume "p \<in> set B"
    then obtain B1 B2 where "B = B1 @ p # B2" by (meson split_list)
    with xs have "xs = A @ r # B1 @ p # B2" by simp
    then show ?thesis by blast
  qed
qed


lemma moveAfter_apart:
  assumes d: "distinct (items s)"
    and k: "map_of (keyMap s) (propName k) = Some r"
    and rp: "r \<in> set (items s)" "p \<in> set (items s)" "r \<noteq> p"
    and nm: "\<not> moved (heap s ! r)"
  shows "\<exists>s'. moveAfter k afterKey (findIndex r s) (findIndex p s) s = Inr s' \<and>
           findIndex r s' = findIndex p s' + 1 \<and>
           removeAll r (items s') = removeAll r (items s) \<and>
           mset (items s') = mset (items s) \<and> heap s' = heap s \<and> keyMap s' = keyMap s"
proof -
  from two_elems_split [OF rp] show ?thesis
  proof (elim disjE exE)
    fix A M B assume xs: "items s = A @ p # M @ r # B"
    with d rp have n: "r \<notin> set A" "r \<notin> set M" "r \<notin> set B" "p \<notin> set A" by auto
    have fr: "findIndex r s = int (length A + 1 + length M)"
      using n rp by (simp add: findIndex_def xs findIndexFrom_append)
    have fp: "findIndex p s = int (length A)"
      using n by (simp add: findIndex_def xs findIndexFrom_append)
    have mv: "moveAfter k afterKey (findIndex r s) (findIndex p s) s
                = Inr (s\<lparr>items := A @ p # r # M @ B\<rparr>)"
      using k nm moveAfter_list_backward [of A M r p B]
      by (simp add: moveAfter_def fr fp xs)
    have "findIndex r (s\<lparr>items := A @ p # r # M @ B\<rparr>)
            = findIndex p (s\<lparr>items := A @ p # r # M @ B\<rparr>) + 1"
      using n rp by (simp add: findIndex_def findIndexFrom_append)
    moreover have "removeAll r (A @ p # r # M @ B) = removeAll r (items s)"
      using n rp by (simp add: xs)
    moreover have "mset (A @ p # r # M @ B) = mset (items s)" by (simp add: xs)
    ultimately show ?thesis using mv by simp
  next
    fix A M B assume xs: "items s = A @ r # M @ p # B"
    with d rp have n: "r \<notin> set A" "r \<notin> set M" "r \<notin> set B" "p \<notin> set A" "p \<notin> set M" by auto
    have fr: "findIndex r s = int (length A)"
      using n by (simp add: findIndex_def xs findIndexFrom_append)
    have fp: "findIndex p s = int (length A + 1 + length M)"
      using n rp by (simp add: findIndex_def xs findIndexFrom_append)
    have mv: "moveAfter k afterKey (findIndex r s) (findIndex p s) s
                = Inr (s\<lparr>items := A @ M @ p # r # B\<rparr>)"
      using k nm moveAfter_list_forward [of A M r p B]
      by (simp add: moveAfter_def fr fp xs)
    have "findIndex r (s\<lparr>items := A @ M @ p # r # B\<rparr>)
            = findIndex p (s\<lparr>items := A @ M @ p # r # B\<rparr>) + 1"
      using n rp by (simp add: findIndex_def findIndexFrom_append)
    moreover have "removeAll r (A @ M @ p # r # B) = removeAll r (items s)"
      using n rp by (simp add: xs)
    moreover have "mset (A @ M @ p # r # B) = mset (items s)" by (simp add: xs)
    ultimately show ?thesis using mv by simp
  qed
qed

section \<open>The invariant\<close>

lemma filter_eq_singleton:
  "distinct xs \<Longrightarrow> x \<in> set xs \<Longrightarrow> filter (\<lambda>y. y = x) xs = [x]"
  by (induction xs) (auto simp: filter_empty_conv)

lemma filter_singleton_count:
  assumes "filter P xs = [x]" shows "x \<in> set xs \<and> P x \<and> count (mset xs) x = 1"
proof -
  have "x \<in> set (filter P xs)" using assms by simp
  then have px: "x \<in> set xs" "P x" by auto
  have "count (mset (filter P xs)) x = 1" using assms by simp
  then have "count (mset xs) x = 1" using px by (simp add: count_mset)
  with px show ?thesis by simp
qed

lemma inBijection_wellFormed: "inBijection s = wellFormed s"
proof
  assume b: "inBijection s"
  then have dk: "distinct (map fst (keyMap s))" by (simp add: inBijection_def)
  have one: "\<And>k r. (k, r) \<in> set (keyMap s) \<Longrightarrow> filter (\<lambda>r'. keyOf s r' = k) (items s) = [r]"
    using b by (auto simp: inBijection_def)
  have mem: "\<And>r. r \<in> set (items s) \<Longrightarrow> r < length (heap s) \<and> (keyOf s r, r) \<in> set (keyMap s)"
    using b by (auto simp: inBijection_def)
  have "\<And>r. r \<in> set (items s) \<Longrightarrow> count (mset (items s)) r = 1"
    using filter_singleton_count [OF one] mem by blast
  then have "distinct (items s)"
    by (simp add: distinct_count_atmost_1)
  moreover have "\<forall>r \<in> set (items s). r < length (heap s) \<and> map_of (keyMap s) (keyOf s r) = Some r"
    using mem dk by (simp add: map_of_eq_Some_iff)
  moreover have "\<forall>k r. map_of (keyMap s) k = Some r \<longrightarrow> r \<in> set (items s) \<and> keyOf s r = k"
    using filter_singleton_count [OF one] dk by (auto simp: map_of_eq_Some_iff)
  ultimately show "wellFormed s" using dk by (simp add: wellFormed_def)
next
  assume w: "wellFormed s"
  then have dk: "distinct (map fst (keyMap s))" and di: "distinct (items s)" by (simp_all add: wellFormed_def)
  have "filter (\<lambda>r'. keyOf s r' = k) (items s) = [r]" if kr: "(k, r) \<in> set (keyMap s)" for k r
  proof -
    from kr dk have m: "map_of (keyMap s) k = Some r" by (simp add: map_of_eq_Some_iff)
    with w have r: "r \<in> set (items s)" "keyOf s r = k" by (auto simp: wellFormed_def)
    have "filter (\<lambda>r'. keyOf s r' = k) (items s) = filter (\<lambda>r'. r' = r) (items s)"
    proof (rule filter_cong [OF refl])
      fix x assume "x \<in> set (items s)"
      with w have "map_of (keyMap s) (keyOf s x) = Some x" by (simp add: wellFormed_def)
      then show "(keyOf s x = k) = (x = r)" using m r(2) by (metis option.inject)
    qed
    with filter_eq_singleton [OF di r(1)] show ?thesis by simp
  qed
  moreover have "\<forall>r \<in> set (items s). r < length (heap s) \<and> (keyOf s r, r) \<in> set (keyMap s)"
    using w by (auto simp: wellFormed_def dest: map_of_SomeD)
  ultimately show "inBijection s" using dk by (auto simp: inBijection_def)
qed


lemma inBijection_store_abc: "inBijection store_abc"
  by (simp add: inBijection_def store_abc_def keyOf_def)

lemma heap_update_key:
  "key x = key (h ! r) \<Longrightarrow> key ((h[r := x]) ! r') = key (h ! r')"
  by (cases "r < length h") (simp_all add: nth_list_update list_update_beyond)

lemma keyOf_assignIndex [simp]: "keyOf (assignIndex r s) r' = keyOf s r'"
  by (simp add: keyOf_def assignIndex_def heap_update_key split: option.splits)

lemma keyOf_clearMoved [simp]: "keyOf (clearMoved r s) r' = keyOf s r'"
  by (simp add: keyOf_def clearMoved_def heap_update_key)

lemma assignIndex_frame [simp]:
  "items (assignIndex r s) = items s" "keyMap (assignIndex r s) = keyMap s"
  "length (heap (assignIndex r s)) = length (heap s)"
  "sink (assignIndex r s) = sink s" "editing (assignIndex r s) = editing s"
  by (simp_all add: assignIndex_def split: option.splits)

lemma clearMoved_frame [simp]:
  "items (clearMoved r s) = items s" "keyMap (clearMoved r s) = keyMap s"
  "length (heap (clearMoved r s)) = length (heap s)"
  "sink (clearMoved r s) = sink s" "editing (clearMoved r s) = editing s"
  by (simp_all add: clearMoved_def)

lemma wellFormed_perm:
  assumes w: "wellFormed s"
    and "mset (items t) = mset (items s)" "keyMap t = keyMap s"
    and "length (heap t) = length (heap s)" "\<And>r. keyOf t r = keyOf s r"
  shows "wellFormed t"
proof -
  have "set (items t) = set (items s)" using assms(2) by (rule mset_eq_setD)
  moreover have "distinct (items t) = distinct (items s)" using assms(2) by (rule mset_eq_imp_distinct_iff)
  ultimately show ?thesis using w assms(3-5) by (simp add: wellFormed_def)
qed













lemma wellFormed_items:
  "wellFormed s \<Longrightarrow> mset xs = mset (items s) \<Longrightarrow> wellFormed (s\<lparr>items := xs\<rparr>)"
  by (rule wellFormed_perm [of s]) (simp_all add: keyOf_def)









section \<open>Construction and replacement of the data\<close>






text \<open>
  C9 (as stated): construction from an argument that is not an array fails with
  InvalidInputError. It does not: on such an argument the constructor returns a store.
\<close>

theorem nonlist_construction_counterexample:
  "keyedDataAdapter (JNotArray :: payload jsarg) None keyField =
     Inr \<lparr>binding = None, keyProperty = keyField, heap = [], items = [], keyMap = [],
          editing = False, notificationHandler = False, sink = []\<rparr>"
  by (simp add: keyedDataAdapter_def initItems_def)

text \<open>
  C9 (amended): construction from an argument that is not an array never fails; the
  argument is taken as the empty sequence, so the store has no record, an empty key map
  and \<open>getCount\<close> 0, for the adapter and for the data source around it.
\<close>

theorem nonlist_construction_empty:
  "map_sum id (\<lambda>s. (getCount s, items s, keyMap s)) (keyedDataAdapter JNotArray b kp)
     = Inr (0, [], []) \<and>
   map_sum id (\<lambda>s. (getCount s, items s, keyMap s)) (KeyedDataSource JNotArray b kp)
     = Inr (0, [], [])"
  by (simp add: KeyedDataSource_def keyedDataAdapter_def initItems_def getCount_def
      setNotificationHandler_def)




section \<open>Fetching\<close>

text \<open>
  C6: \<^verbatim>\<open>itemsFromIndex\<close> fails with the does-not-exist error exactly when the
  requested index is outside \<open>[0, count)\<close>; otherwise it succeeds with the whole current
  sequence, whatever \<open>countBefore\<close> and \<open>countAfter\<close> are, the requested index as offset
  and the count as total count.
\<close>

theorem itemsFromIndex_range:
  "itemsFromIndex i countBefore countAfter s =
     (if 0 \<le> i \<and> i < int (getCount s)
      then Inr \<lparr>fetched = items s, offset = Some i, absoluteIndex = None,
                totalCount = getCount s\<rparr>
      else Inl (DoesNotExist None))"
  by (simp add: itemsFromIndex_def getCount_def Let_def)

text \<open>
  What \<^verbatim>\<open>itemsFromKey\<close> does on a store that satisfies the invariant, for a key that
  is not an inherited name: it fails exactly when no record of the store has the key,
  with the does-not-exist error carrying the key; when a record has the key it succeeds
  with the whole sequence, the count, and the value of that record's \<^verbatim>\<open>index\<close> field
  as both offset and absolute index.
\<close>

lemma itemsFromKey_found_iff:
  assumes "inBijection s" and "plainKey k"
  shows "((itemsFromKey k countBefore countAfter s = Inl (DoesNotExist (Some k))) =
            (\<forall>r \<in> set (items s). keyOf s r \<noteq> propName k)) \<and>
         ((\<exists>e. itemsFromKey k countBefore countAfter s = Inl e) =
            (\<forall>r \<in> set (items s). keyOf s r \<noteq> propName k)) \<and>
         (\<forall>r \<in> set (items s). keyOf s r = propName k \<longrightarrow>
            itemsFromKey k countBefore countAfter s =
              Inr \<lparr>fetched = items s, offset = index (heap s ! r),
                   absoluteIndex = index (heap s ! r), totalCount = getCount s\<rparr>)"
proof -
  from assms(1) have w: "wellFormed s" by (simp add: inBijection_wellFormed)
  from assms(2) have pk: "\<not> inheritedName (propName k)" by (simp add: plainKey_def)
  have none: "(map_of (keyMap s) (propName k) = None) =
                (\<forall>r \<in> set (items s). keyOf s r \<noteq> propName k)"
  proof (cases "map_of (keyMap s) (propName k)")
    case None
    with w show ?thesis by (auto simp: wellFormed_def)
  next
    case (Some r)
    with w have "r \<in> set (items s)" "keyOf s r = propName k" by (auto simp: wellFormed_def)
    with Some show ?thesis by auto
  qed
  have found: "itemsFromKey k countBefore countAfter s =
              Inr \<lparr>fetched = items s, offset = index (heap s ! r),
                   absoluteIndex = index (heap s ! r), totalCount = getCount s\<rparr>"
    if "r \<in> set (items s)" "keyOf s r = propName k" for r
  proof -
    from that w have "map_of (keyMap s) (propName k) = Some r" by (auto simp: wellFormed_def)
    then show ?thesis by (simp add: itemsFromKey_def getCount_def)
  qed
  have a: "(itemsFromKey k countBefore countAfter s = Inl (DoesNotExist (Some k))) =
            (map_of (keyMap s) (propName k) = None)"
    by (simp add: itemsFromKey_def pk split: option.splits)
  have b: "(\<exists>e. itemsFromKey k countBefore countAfter s = Inl e) =
            (map_of (keyMap s) (propName k) = None)"
    by (simp add: itemsFromKey_def pk split: option.splits)
  show ?thesis using found by (simp add: a b none)
qed

lemma itemsFromKey_absent_z:
  "itemsFromKey (KStr ''z'') 0 0 store_abc = Inl (DoesNotExist (Some (KStr ''z'')))"
  by (simp add: itemsFromKey_def store_abc_def inheritedName_def inheritedNames_def)

text \<open>
  C7: \<^verbatim>\<open>itemsFromKey\<close> should fail with the error carrying the key exactly when the
  key is absent, and on a present key return the whole sequence with the record's index
  as offset and absolute index. The error half holds for keys that are not inherited
  names (above). On the freshly built store
  of the scenario, the record of key b stands at position 1, and the fetch succeeds with
  the whole sequence but with offset and absolute index undefined: nothing has assigned
  the record's \<^verbatim>\<open>index\<close>, and \<^verbatim>\<open>itemsFromKey\<close> has no fallback to
  \<^verbatim>\<open>_findIndex\<close> as \<^verbatim>\<open>moveToStart\<close>, \<^verbatim>\<open>moveToEnd\<close> and \<^verbatim>\<open>remove\<close> have.
\<close>

theorem itemsFromKey_unassigned_index:
  "map_of (keyMap store_abc) (propName (KStr ''b'')) = Some 1 \<and>
   findIndex 1 store_abc = 1 \<and>
   itemsFromKey (KStr ''b'') 0 0 store_abc =
     Inr \<lparr>fetched = [0, 1, 2], offset = None, absoluteIndex = None, totalCount = 3\<rparr>"
  by (simp add: itemsFromKey_def store_abc_def findIndex_def)

section \<open>Moving a record behind another\<close>

text \<open>
  C8: in a store that satisfies the invariant, let \<open>key\<close> and \<open>afterKey\<close> name two
  different records, let \<open>currentIndex\<close> and \<open>afterIndex\<close> be their positions, and let
  the record of \<open>key\<close> not be marked as moved. Then \<^verbatim>\<open>moveAfter\<close> succeeds; the new
  sequence is the old one with the record inserted at \<open>afterIndex + 1\<close> and its old
  occurrence removed at \<open>currentIndex + delta\<close>, \<open>delta\<close> being 0 for a target beyond the
  current index and 1 otherwise; in it the record stands immediately behind the record
  of \<open>afterKey\<close>, and the other records keep their order. Records and key map are
  untouched.
\<close>

theorem moveAfter_relocates:
  assumes "inBijection s"
    and "map_of (keyMap s) (propName k) = Some r"
    and "map_of (keyMap s) (propName afterKey) = Some p"
    and "r \<noteq> p"
    and "currentIndex = findIndex r s" and "afterIndex = findIndex p s"
    and "\<not> moved (heap s ! r)"
  shows "\<exists>s'. moveAfter k afterKey currentIndex afterIndex s = Inr s' \<and>
           items s' = spliceRemove (currentIndex + (if afterIndex + 1 > currentIndex then 0 else 1))
                        (spliceInsert (afterIndex + 1) r (items s)) \<and>
           findIndex r s' = findIndex p s' + 1 \<and>
           removeAll r (items s') = removeAll r (items s) \<and>
           mset (items s') = mset (items s) \<and> heap s' = heap s \<and> keyMap s' = keyMap s"
proof -
  from assms(1) have w: "wellFormed s" by (simp add: inBijection_wellFormed)
  with assms(2,3) have r: "r \<in> set (items s)" "p \<in> set (items s)" and d: "distinct (items s)"
    by (auto simp: wellFormed_def)
  from moveAfter_apart [OF d assms(2) r assms(4,7), of afterKey] obtain s' where
    s': "moveAfter k afterKey currentIndex afterIndex s = Inr s'"
      "findIndex r s' = findIndex p s' + 1" "removeAll r (items s') = removeAll r (items s)"
      "mset (items s') = mset (items s)" "heap s' = heap s" "keyMap s' = keyMap s"
    unfolding assms(5,6) by blast
  have "items s' = spliceRemove (currentIndex + (if afterIndex + 1 > currentIndex then 0 else 1))
                        (spliceInsert (afterIndex + 1) r (items s))"
    using s'(1) assms(2,7) by (auto simp: moveAfter_def Let_def)
  with s' show ?thesis by blast
qed

theorem moveAfter_relocates_witness:
  "inBijection store_abc \<and>
   map_sum id items (moveAfter (KStr ''c'') (KStr ''a'') 2 0 store_abc) = Inr [0, 2, 1] \<and>
   map_sum id items (moveAfter (KStr ''a'') (KStr ''c'') 0 2 store_abc) = Inr [1, 2, 0]"
proof -
  have m: "map_of (keyMap store_abc) (propName (KStr ''c'')) = Some 2"
          "map_of (keyMap store_abc) (propName (KStr ''a'')) = Some 0"
    and f: "2 = findIndex 2 store_abc" "0 = findIndex 0 store_abc"
    and n: "\<not> moved (heap store_abc ! 2)" "\<not> moved (heap store_abc ! 0)"
    by (simp_all add: store_abc_def findIndex_def)
  have ne: "(2::nat) \<noteq> 0" "(0::nat) \<noteq> 2" by simp_all
  have xs: "items store_abc = [0, 1, 2]" by (simp add: store_abc_def)
  from moveAfter_relocates [OF inBijection_store_abc m(1) m(2) ne(1) f(1) f(2) n(1)]
  have 1: "map_sum id items (moveAfter (KStr ''c'') (KStr ''a'') 2 0 store_abc) = Inr [0, 2, 1]"
    by (auto simp: xs spliceInsert_def spliceRemove_def clampStart_def)
  from moveAfter_relocates [OF inBijection_store_abc m(2) m(1) ne(2) f(2) f(1) n(2)]
  have 2: "map_sum id items (moveAfter (KStr ''a'') (KStr ''c'') 0 2 store_abc) = Inr [1, 2, 0]"
    by (auto simp: xs spliceInsert_def spliceRemove_def clampStart_def)
  show ?thesis using 1 2 inBijection_store_abc by simp
qed

section \<open>Sequences of operations and the invariant\<close>


text \<open>The invariant is also lost when a record is removed after it was moved to the
  start: the moved record keeps its old position as cached index, and \<^verbatim>\<open>remove\<close>
  splices there.\<close>

lemma stale_remove_breaks:
  "\<not> inBijection (step (Remove (KStr ''c'')) (step (MoveToStart (KStr ''c'')) store_abc))"
  by (simp add: inBijection_def step_def moveToStart_def removeKey_def store_abc_def keyOf_def
      assignIndex_def findIndex_def spliceInsert_def spliceRemove_def clampStart_def AList.delete_eq)

text \<open>And when \<^verbatim>\<open>moveAfter\<close> is given a current index that is not the record's
  position: the record is inserted a second time and its neighbour is spliced out.\<close>

lemma wrong_hint_breaks:
  "\<not> inBijection (step (MoveAfter (KStr ''a'') (KStr ''c'') 1 2) store_abc)"
  by (simp add: inBijection_def step_def moveAfter_def store_abc_def keyOf_def
      spliceInsert_def spliceRemove_def clampStart_def)

text \<open>An operation within its precondition is one the model follows: it returns, or it
  throws the \<open>TypeError\<close> of a read on \<^verbatim>\<open>undefined\<close>. A move on an inherited name
  that the store does not hold is not within the precondition.\<close>

lemma opOk_followed: "opOk opn s \<Longrightarrow> applyOp opn s \<noteq> Inl (InheritedMember k)"
  by (cases opn)
     (auto simp: plainKey_def moveToStart_def moveToEnd_def moveAfter_def insertAtEnd_def
             Let_def inheritedName_def inheritedNames_def protoAccessor_def
           split: option.splits if_splits)

lemma inherited_move_outside:
  "moveToEnd (KStr ''toString'') store_abc = Inl (InheritedMember (KStr ''toString'')) \<and>
   \<not> opsOk [MoveToEnd (KStr ''toString'')] store_abc"
  by (simp add: moveToEnd_def store_abc_def plainKey_def inheritedName_def inheritedNames_def)




section \<open>Sorting\<close>

subsection \<open>The scan\<close>

lemma heap_update_data:
  "data x = data (h ! r) \<Longrightarrow> data ((h[r := x]) ! r') = data (h ! r')"
  by (cases "r < length h") (simp_all add: nth_list_update list_update_beyond)

lemma sameRecords_refl [simp]: "sameRecords s s"
  by (simp add: sameRecords_def)

lemma sameRecords_trans: "sameRecords s t \<Longrightarrow> sameRecords t u \<Longrightarrow> sameRecords s u"
  by (simp add: sameRecords_def)

lemma sameRecords_wellFormed: "wellFormed s \<Longrightarrow> sameRecords s t \<Longrightarrow> wellFormed t"
  by (rule wellFormed_perm [of s]) (simp_all add: sameRecords_def keyOf_def)

lemma sameRecords_assignIndex: "sameRecords s (assignIndex r s)"
  by (simp add: sameRecords_def assignIndex_def heap_update_key heap_update_data split: option.splits)

lemma sameRecords_clearMoved: "sameRecords s (clearMoved r s)"
  by (simp add: sameRecords_def clearMoved_def heap_update_key heap_update_data)

lemma sameRecords_mark: "sameRecords s (s\<lparr>heap := (heap s)[r := (heap s ! r)\<lparr>moved := True\<rparr>]\<rparr>)"
  by (simp add: sameRecords_def heap_update_key heap_update_data)

lemma sameRecords_sink: "sameRecords s (s\<lparr>sink := k\<rparr>)"
  by (simp add: sameRecords_def)

text \<open>Records other than the one at hand are not written.\<close>

lemma other_assignIndex: "r' \<noteq> r \<Longrightarrow> heap (assignIndex r s) ! r' = heap s ! r'"
  by (simp add: assignIndex_def split: option.splits)

lemma other_clearMoved: "r' \<noteq> r \<Longrightarrow> heap (clearMoved r s) ! r' = heap s ! r'"
  by (simp add: clearMoved_def)

lemma sink_assignIndex_etc [simp]:
  "sink (assignIndex r s) = sink s" "sink (clearMoved r s) = sink s"
  by (simp_all add: assignIndex_def clearMoved_def split: option.splits)

lemma moved_assignIndex: "moved (heap (assignIndex r s) ! r') = moved (heap s ! r')"
  by (cases "r < length (heap s)"; cases "r' = r")
     (simp_all add: assignIndex_def list_update_beyond split: option.splits)

lemma marked_moveToStart:
  assumes "map_of (keyMap s) (propName k) = Some r" "moved (heap s ! r)"
  shows "moveToStart k s = Inr (clearMoved r (assignIndex r s))"
  using assms by (simp add: moveToStart_def moved_assignIndex)

lemma marked_moveAfter:
  assumes "map_of (keyMap s) (propName k) = Some r" "moved (heap s ! r)"
  shows "moveAfter k pk ci pi s = Inr (clearMoved r s)"
  using assms by (simp add: moveAfter_def)

text \<open>One position of the scan.\<close>

lemma sortVisit_spec:
  assumes w: "wellFormed s" and i: "i < length (items s)"
  shows "\<exists>s2. sortVisit h i s = Inr s2 \<and> sameRecords s s2 \<and>
              sink s2 = sink s @ (if staleAt s i then [callAt s i] else []) \<and>
              (\<forall>r'. r' \<noteq> items s ! i \<longrightarrow> heap s2 ! r' = heap s ! r')"
proof (cases "staleAt s i")
  case False
  then show ?thesis using i by (simp add: sortVisit_def staleAt_def)
next
  case stale: True
  define r where "r = items s ! i"
  define s1 where "s1 = s\<lparr>heap := (heap s)[r := (heap s ! r)\<lparr>moved := True\<rparr>]\<rparr>"
  define prevKey where "prevKey = (if i = 0 then KNull else key (heap s ! (items s ! (i - 1))))"
  have visit: "sortVisit h i s =
      (if \<not> truthy prevKey then hostMoveToStart (key (heap s ! r)) s1
       else hostMoveAfter h (key (heap s ! r)) prevKey s1)"
    using i stale by (simp add: sortVisit_def staleAt_def Let_def r_def s1_def prevKey_def)
  from w i have rin: "r \<in> set (items s)" by (simp add: r_def)
  with w have rlt: "r < length (heap s)"
    and look: "map_of (keyMap s) (propName (key (heap s ! r))) = Some r"
    by (simp_all add: wellFormed_def keyOf_def)
  have mk: "moved (heap s1 ! r)" using rlt by (simp add: s1_def)
  have o1: "\<And>r'. r' \<noteq> r \<Longrightarrow> heap s1 ! r' = heap s ! r'" by (simp add: s1_def)
  have sr1: "sameRecords s s1" unfolding s1_def by (rule sameRecords_mark)
  have km1: "keyMap s1 = keyMap s" and sk1: "sink s1 = sink s" by (simp_all add: s1_def)
  show ?thesis
  proof (cases "truthy prevKey")
    case False
    define s1' where "s1' = s1\<lparr>sink := sink s1 @ [CallMoveToStart (key (heap s ! r))]\<rparr>"
    have "moveToStart (key (heap s ! r)) s1' = Inr (clearMoved r (assignIndex r s1'))"
      using look mk by (intro marked_moveToStart) (simp_all add: s1'_def km1)
    moreover have "sameRecords s (clearMoved r (assignIndex r s1'))"
      using sr1 sameRecords_sink [of s1] sameRecords_assignIndex [of s1' r]
        sameRecords_clearMoved [of "assignIndex r s1'" r]
      unfolding s1'_def by (blast intro: sameRecords_trans)
    moreover have "sink (clearMoved r (assignIndex r s1')) = sink s @ [callAt s i]"
      using False by (simp add: s1'_def sk1 callAt_def prevKey_def r_def)
    moreover have "\<forall>r'. r' \<noteq> r \<longrightarrow> heap (clearMoved r (assignIndex r s1')) ! r' = heap s ! r'"
      using o1 by (simp add: other_clearMoved other_assignIndex s1'_def)
    ultimately show ?thesis
      unfolding visit using False stale by (simp add: hostMoveToStart_def s1'_def r_def)
  next
    case True
    define s1' where "s1' = s1\<lparr>sink := sink s1 @ [CallMoveAfter (key (heap s ! r)) prevKey]\<rparr>"
    have "moveAfter (key (heap s ! r)) prevKey (fst (h s1 (key (heap s ! r)) prevKey))
            (snd (h s1 (key (heap s ! r)) prevKey)) s1' = Inr (clearMoved r s1')"
      using look mk by (intro marked_moveAfter) (simp_all add: s1'_def km1)
    moreover have "sameRecords s (clearMoved r s1')"
      using sr1 sameRecords_sink [of s1] sameRecords_clearMoved [of s1' r]
      unfolding s1'_def by (blast intro: sameRecords_trans)
    moreover have "sink (clearMoved r s1') = sink s @ [callAt s i]"
      using True by (simp add: s1'_def sk1 callAt_def prevKey_def r_def)
    moreover have "\<forall>r'. r' \<noteq> r \<longrightarrow> heap (clearMoved r s1') ! r' = heap s ! r'"
      using o1 by (simp add: other_clearMoved s1'_def)
    ultimately show ?thesis
      unfolding visit using True stale by (simp add: hostMoveAfter_def Let_def s1'_def r_def)
  qed
qed

lemma replayCalls_Suc:
  "replayCalls s i (Suc n) = (if staleAt s i then [callAt s i] else []) @ replayCalls s (Suc i) n"
proof -
  have "[i..<i + Suc n] = i # [Suc i..<Suc i + n]" by (subst upt_rec) simp
  then show ?thesis by (simp add: replayCalls_def)
qed

lemma replayCalls_cong:
  assumes "items t = items s" "\<And>r. key (heap t ! r) = key (heap s ! r)"
    and "\<And>j. i \<le> j \<Longrightarrow> j < i + n \<Longrightarrow>
            index (heap t ! (items s ! j)) = index (heap s ! (items s ! j))"
  shows "replayCalls t i n = replayCalls s i n"
proof -
  have c: "callAt t = callAt s" by (rule ext) (simp add: callAt_def assms(1,2))
  have "filter (staleAt t) [i..<i + n] = filter (staleAt s) [i..<i + n]"
    by (rule filter_cong [OF refl]) (simp add: staleAt_def assms(1,3))
  then show ?thesis by (simp add: replayCalls_def c)
qed

lemma sortReplay_spec:
  assumes "wellFormed s" "i + n \<le> length (items s)"
  shows "\<exists>t. sortReplay h i n s = Inr t \<and> sameRecords s t \<and>
             sink t = sink s @ replayCalls s i n \<and>
             (\<forall>r'. r' \<notin> set (take n (drop i (items s))) \<longrightarrow> heap t ! r' = heap s ! r')"
  using assms
proof (induction n arbitrary: i s)
  case 0
  then show ?case by (simp add: replayCalls_def)
next
  case (Suc n)
  from Suc.prems have i: "i < length (items s)" and le: "Suc i + n \<le> length (items s)" by simp_all
  define r where "r = items s ! i"
  have td: "take (Suc n) (drop i (items s)) = r # take n (drop (Suc i) (items s))"
    using i by (simp add: r_def flip: Cons_nth_drop_Suc)
  from sortVisit_spec [OF Suc.prems(1) i, of h] obtain s2 where
    visit: "sortVisit h i s = Inr s2"
    and sr: "sameRecords s s2"
    and sk: "sink s2 = sink s @ (if staleAt s i then [callAt s i] else [])"
    and other: "\<forall>r'. r' \<noteq> r \<longrightarrow> heap s2 ! r' = heap s ! r'"
    unfolding r_def by blast
  have eq: "sortReplay h i (Suc n) s = sortReplay h (Suc i) n s2"
    by (simp add: visit)
  have w2: "wellFormed s2" using Suc.prems(1) sr by (rule sameRecords_wellFormed)
  have it2: "items s2 = items s" using sr by (simp add: sameRecords_def)
  from Suc.IH [OF w2, of "Suc i"] le obtain t where
    t: "sortReplay h (Suc i) n s2 = Inr t" "sameRecords s2 t"
       "sink t = sink s2 @ replayCalls s2 (Suc i) n"
       "\<forall>r'. r' \<notin> set (take n (drop (Suc i) (items s))) \<longrightarrow> heap t ! r' = heap s2 ! r'"
    by (auto simp: it2)
  have d: "distinct (items s)" using Suc.prems(1) by (simp add: wellFormed_def)
  have later: "items s ! j \<noteq> r" if "Suc i \<le> j" "j < Suc i + n" for j
    using that d i le by (simp add: r_def nth_eq_iff_index_eq)
  have rc: "replayCalls s2 (Suc i) n = replayCalls s (Suc i) n"
  proof (rule replayCalls_cong)
    show "items s2 = items s" by (rule it2)
    show "\<And>r. key (heap s2 ! r) = key (heap s ! r)" using sr by (simp add: sameRecords_def)
    show "index (heap s2 ! (items s ! j)) = index (heap s ! (items s ! j))"
      if "Suc i \<le> j" "j < Suc i + n" for j
      using later [OF that] other by simp
  qed
  have "sameRecords s t" using sr t(2) by (rule sameRecords_trans)
  moreover have "sink t = sink s @ replayCalls s i (Suc n)"
    by (simp add: t(3) sk rc replayCalls_Suc)
  moreover have "\<forall>r'. r' \<notin> set (take (Suc n) (drop i (items s))) \<longrightarrow> heap t ! r' = heap s ! r'"
    using t(4) other by (simp add: td)
  ultimately show ?case unfolding eq using t(1) by blast
qed

subsection \<open>The sort of the language\<close>

text \<open>The model of \<^verbatim>\<open>Array.prototype.sort\<close> permutes its argument, commutes with a
  projection the comparator goes through, leaves an ordered list alone, orders its
  result when the comparator keeps the three-way contract, and keeps the order of
  elements that are tied with each other.\<close>

lemma mset_sortInsert: "mset (sortInsert c x ys) = add_mset x (mset ys)"
  by (induction ys) simp_all

lemma mset_arraySort: "mset (arraySort c xs) = mset xs"
  by (induction xs) (simp_all add: arraySort_def mset_sortInsert)

lemma sortInsert_map:
  "map f (sortInsert (\<lambda>a b. c (f a) (f b)) x ys) = sortInsert c (f x) (map f ys)"
  by (induction ys) simp_all

lemma arraySort_map:
  "map f (arraySort (\<lambda>a b. c (f a) (f b)) xs) = arraySort c (map f xs)"
  by (induction xs) (simp_all add: arraySort_def sortInsert_map)

lemma ordered_sortInsert_Cons:
  "threeWay c \<Longrightarrow> c y x \<le> 0 \<Longrightarrow> ordered c (y # ys) \<Longrightarrow> ordered c (y # sortInsert c x ys)"
proof (induction ys arbitrary: y)
  case Nil
  then show ?case by simp
next
  case (Cons z zs)
  show ?case
  proof (cases "c x z \<le> 0")
    case True
    with Cons.prems show ?thesis by simp
  next
    case False
    with Cons.prems(1) have "c z x \<le> 0" unfolding threeWay_def by (metis)
    with Cons.IH [OF Cons.prems(1), of z] Cons.prems(3) have "ordered c (z # sortInsert c x zs)" by simp
    with False Cons.prems(3) show ?thesis by simp
  qed
qed

lemma ordered_sortInsert:
  assumes "threeWay c" "ordered c ys" shows "ordered c (sortInsert c x ys)"
proof (cases ys)
  case Nil
  then show ?thesis by simp
next
  case (Cons y zs)
  show ?thesis
  proof (cases "c x y \<le> 0")
    case True
    with assms Cons show ?thesis by simp
  next
    case False
    with assms(1) have "c y x \<le> 0" unfolding threeWay_def by metis
    with ordered_sortInsert_Cons [OF assms(1), of y x zs] assms(2) Cons False show ?thesis by simp
  qed
qed

lemma ordered_arraySort: "threeWay c \<Longrightarrow> ordered c (arraySort c xs)"
  by (induction xs) (simp_all add: arraySort_def ordered_sortInsert)

lemma arraySort_ordered: "ordered c xs \<Longrightarrow> arraySort c xs = xs"
proof (induction xs)
  case Nil
  then show ?case by (simp add: arraySort_def)
next
  case (Cons x xs)
  then have "ordered c xs" by (cases xs) simp_all
  with Cons.IH have "arraySort c (x # xs) = sortInsert c x xs" by (simp add: arraySort_def)
  with Cons.prems show ?case by (cases xs) simp_all
qed

lemma arraySort_idem: "threeWay c \<Longrightarrow> arraySort c (arraySort c xs) = arraySort c xs"
  by (simp add: arraySort_ordered ordered_arraySort)

lemma filter_sortInsert:
  assumes "\<And>a b. P a \<Longrightarrow> P b \<Longrightarrow> c a b \<le> 0"
  shows "filter P (sortInsert c x ys) = filter P (x # ys)"
  using assms by (induction ys) auto

lemma arraySort_stable:
  assumes "\<And>a b. P a \<Longrightarrow> P b \<Longrightarrow> c a b \<le> 0"
  shows "filter P (arraySort c xs) = filter P xs"
proof (induction xs)
  case Nil
  show ?case by (simp add: arraySort_def)
next
  case (Cons x xs)
  have "filter P (arraySort c (x # xs)) = filter P (x # arraySort c xs)"
    using filter_sortInsert [of P c x "arraySort c xs"] assms by (simp add: arraySort_def)
  with Cons show ?case by simp
qed

subsection \<open>The data source's sort\<close>

lemma sortDS_spec:
  fixes s :: "'d adapter" and c :: "'d \<Rightarrow> 'd \<Rightarrow> int"
  assumes w: "wellFormed s"
  defines "order \<equiv> arraySort (\<lambda>a b. c (data (heap s ! a)) (data (heap s ! b))) (items s)"
  shows "\<exists>t. sortDS h c s = Inr t \<and> items t = order \<and> keyMap t = keyMap s \<and>
             length (heap t) = length (heap s) \<and>
             (\<forall>r. key (heap t ! r) = key (heap s ! r) \<and> data (heap t ! r) = data (heap s ! r)) \<and>
             editing t = editing s \<and> wellFormed t \<and>
             sink t = sink s @ (if editing s then [] else [BeginEdits])
                        @ replayCalls (s\<lparr>items := order\<rparr>) 0 (length (items s))
                        @ (if editing s then [] else [EndEdits])"
proof -
  define s1 where "s1 = s\<lparr>items := order\<rparr>"
  define s2 where "s2 = (if \<not> editing s then hostBeginEdits s1 else s1)"
  have ms: "mset order = mset (items s)" by (simp add: order_def mset_arraySort)
  then have len: "length order = length (items s)" by (metis size_mset)
  have w1: "wellFormed s1" unfolding s1_def using w ms by (rule wellFormed_items)
  have it2: "items s2 = order" and hp2: "heap s2 = heap s" and km2: "keyMap s2 = keyMap s"
    and sk2: "sink s2 = sink s @ (if editing s then [] else [BeginEdits])"
    and ed2: "editing s2 = True"
    by (simp_all add: s2_def s1_def hostBeginEdits_def beginEdits_def)
  have w2: "wellFormed s2"
    using w1 by (rule wellFormed_perm) (simp_all add: it2 hp2 km2 s1_def keyOf_def)
  have rc: "replayCalls s2 0 (length (items s)) = replayCalls s1 0 (length (items s))"
    by (rule replayCalls_cong) (simp_all add: it2 hp2 s1_def)
  from sortReplay_spec [OF w2, of 0 "length (items s)" h] obtain t where
    t: "sortReplay h 0 (length (items s)) s2 = Inr t" "sameRecords s2 t"
       "sink t = sink s2 @ replayCalls s2 0 (length (items s))"
    by (auto simp: it2 len)
  define u where "u = (if \<not> editing s then hostEndEdits t else t)"
  have run: "sortDS h c s = Inr u"
  proof -
    have "sortDS h c s =
        (case sortReplay h 0 (length (items s)) s2 of
           Inl e \<Rightarrow> Inl e
         | Inr s3 \<Rightarrow> Inr (if \<not> editing s then hostEndEdits s3 else s3))"
      by (simp add: sortDS_def Let_def s2_def s1_def order_def)
    then show ?thesis by (simp add: t(1) u_def)
  qed
  have itu: "items u = order" and kmu: "keyMap u = keyMap s"
    and lhu: "length (heap u) = length (heap s)"
    and kdu: "\<forall>r. key (heap u ! r) = key (heap s ! r) \<and> data (heap u ! r) = data (heap s ! r)"
    using t(2) by (simp_all add: u_def sameRecords_def hostEndEdits_def endEdits_def it2 km2 hp2)
  have edu: "editing u = editing s"
    using t(2) by (simp add: u_def sameRecords_def hostEndEdits_def endEdits_def ed2)
  have sku: "sink u = sink s @ (if editing s then [] else [BeginEdits])
                        @ replayCalls (s\<lparr>items := order\<rparr>) 0 (length (items s))
                        @ (if editing s then [] else [EndEdits])"
    by (simp add: u_def hostEndEdits_def endEdits_def t(3) sk2 rc s1_def)
  have wu: "wellFormed u"
    using w1 by (rule wellFormed_perm) (simp_all add: itu kmu lhu kdu s1_def keyOf_def)
  show ?thesis using run itu kmu lhu kdu edu wu sku by blast
qed

lemma replayCalls_empty:
  "(replayCalls s 0 n = []) = (\<forall>i < n. index (heap s ! (items s ! i)) = Some (int i))"
  by (auto simp: replayCalls_def filter_empty_conv staleAt_def)

lemma sort_abc: "sortDS noHints byV store_abc = Inr store_bca"
  by (simp add: sortDS_def store_abc_def store_bca_def byV_def arraySort_def hostBeginEdits_def
      hostEndEdits_def beginEdits_def endEdits_def sortVisit_def hostMoveToStart_def
      hostMoveAfter_def moveToStart_def moveAfter_def assignIndex_def clearMoved_def
      findIndex_def noHints_def Let_def numeral_2_eq_2 numeral_3_eq_3)

lemma inBijection_store_bca: "inBijection store_bca"
  by (simp add: inBijection_def store_bca_def keyOf_def)

lemma threeWay_byV: "threeWay byV"
  by (auto simp: threeWay_def byV_def)

text \<open>
  C2: on a store that satisfies the invariant, \<^verbatim>\<open>sort\<close> succeeds and leaves the
  payloads in the order the stable sort of the language gives them under the
  comparator, whatever moves the scan replays and whatever index hints the host passes;
  for the store built from \<^verbatim>\<open>[{key:"a",v:3},{key:"b",v:1},{key:"c",v:2}]\<close> and the
  comparator \<^verbatim>\<open>(x,y) => x.v - y.v\<close> the key order becomes b, c, a and
  \<^verbatim>\<open>getAt(0)\<close> is the payload of b.
\<close>

theorem sort_orders_payloads:
  assumes "inBijection s"
  shows "map_sum id payloads (sortDS h c s) = Inr (arraySort c (payloads s)) \<and>
         map_sum id keysInOrder (sortDS h0 byV store_abc) = Inr [KStr ''b'', KStr ''c'', KStr ''a''] \<and>
         map_sum id (getAt 0) (sortDS h0 byV store_abc) = Inr (Some (''b'', 1))"
proof -
  have gen: "map_sum id payloads (sortDS h c s) = Inr (arraySort c (payloads s))"
    if w: "wellFormed s" for s :: "'a adapter" and h c
  proof -
    from sortDS_spec [OF w, of h c] obtain t where
      t: "sortDS h c s = Inr t"
         "items t = arraySort (\<lambda>a b. c (data (heap s ! a)) (data (heap s ! b))) (items s)"
         "\<forall>r. key (heap t ! r) = key (heap s ! r) \<and> data (heap t ! r) = data (heap s ! r)"
      by blast
    have "payloads t = map (\<lambda>r. data (heap s ! r))
              (arraySort (\<lambda>a b. c (data (heap s ! a)) (data (heap s ! b))) (items s))"
      by (simp add: payloads_def t(2,3))
    also have "\<dots> = arraySort c (payloads s)"
      using arraySort_map [of "\<lambda>r. data (heap s ! r)" c "items s"] by (simp add: payloads_def)
    finally show ?thesis by (simp add: t(1))
  qed
  have wabc: "wellFormed store_abc" using inBijection_store_abc by (simp add: inBijection_wellFormed)
  from sortDS_spec [OF wabc, of h0 byV] obtain t where
    t: "sortDS h0 byV store_abc = Inr t"
       "items t = arraySort (\<lambda>a b. byV (data (heap store_abc ! a)) (data (heap store_abc ! b)))
                    (items store_abc)"
       "\<forall>r. key (heap t ! r) = key (heap store_abc ! r) \<and> data (heap t ! r) = data (heap store_abc ! r)"
    by blast
  have it: "items t = [1, 2, 0]"
    by (simp add: t(2) store_abc_def arraySort_def byV_def)
  have keys: "keysInOrder t = [KStr ''b'', KStr ''c'', KStr ''a'']"
    by (simp add: keysInOrder_def it t(3)) (simp add: store_abc_def)
  have first: "getAt 0 t = Some (''b'', 1)"
    by (simp add: getAt_def it t(3)) (simp add: store_abc_def)
  from assms have "wellFormed s" by (simp add: inBijection_wellFormed)
  from gen [OF this] keys first show ?thesis by (simp add: t(1))
qed

theorem sort_orders_payloads_witness:
  "inBijection store_abc \<and>
   map_sum id payloads (sortDS noHints byV store_abc) = Inr [(''b'', 1), (''c'', 2), (''a'', 3)] \<and>
   map_sum id keysInOrder (sortDS noHints byV store_abc) = Inr [KStr ''b'', KStr ''c'', KStr ''a''] \<and>
   map_sum id (getAt 0) (sortDS noHints byV store_abc) = Inr (Some (''b'', 1))"
proof -
  have p: "arraySort byV (payloads store_abc) = [(''b'', 1), (''c'', 2), (''a'', 3)]"
    by (simp add: payloads_def store_abc_def arraySort_def byV_def)
  from sort_orders_payloads [OF inBijection_store_abc, of noHints byV noHints] p
  show ?thesis using inBijection_store_abc by simp
qed

text \<open>
  What a second sort does: on a store that satisfies the invariant and for a comparator
  that keeps the three-way contract, sorting again with the same comparator succeeds and
  leaves the sequence and the payload order unchanged; between its \<open>BeginEdits\<close> and
  \<open>EndEdits\<close> (made unless a batch is open) the scan calls a move for each position
  whose record's \<^verbatim>\<open>index\<close> field is not that position, so there is no call exactly
  when every record's \<^verbatim>\<open>index\<close> equals its position.
\<close>

lemma second_sort_calls:
  assumes "inBijection s" and "threeWay c" and "sortDS h c s = Inr t"
  shows "\<exists>u. sortDS h c t = Inr u \<and> items u = items t \<and> payloads u = payloads t \<and>
           sink u = sink t @ (if editing t then [] else [BeginEdits])
                      @ replayCalls t 0 (length (items t))
                      @ (if editing t then [] else [EndEdits]) \<and>
           ((replayCalls t 0 (length (items t)) = []) =
              (\<forall>i < length (items t). index (heap t ! (items t ! i)) = Some (int i)))"
proof -
  define cs where "cs = (\<lambda>a b. c (data (heap s ! a)) (data (heap s ! b)))"
  from assms(1) have w: "wellFormed s" by (simp add: inBijection_wellFormed)
  from sortDS_spec [OF w, of h c] assms(3) have
    t: "items t = arraySort cs (items s)" "wellFormed t"
       "\<forall>r. key (heap t ! r) = key (heap s ! r) \<and> data (heap t ! r) = data (heap s ! r)"
    by (auto simp: cs_def)
  have ct: "(\<lambda>a b. c (data (heap t ! a)) (data (heap t ! b))) = cs"
    by (simp add: cs_def t(3))
  have tw: "threeWay cs" using assms(2) by (simp add: threeWay_def cs_def)
  have same: "arraySort cs (items t) = items t"
    unfolding t(1) using tw by (rule arraySort_idem)
  have tt: "t\<lparr>items := items t\<rparr> = t" by simp
  from sortDS_spec [OF t(2), of h c] obtain u where
    u: "sortDS h c t = Inr u" "items u = items t"
       "\<forall>r. key (heap u ! r) = key (heap t ! r) \<and> data (heap u ! r) = data (heap t ! r)"
       "sink u = sink t @ (if editing t then [] else [BeginEdits])
                      @ replayCalls t 0 (length (items t))
                      @ (if editing t then [] else [EndEdits])"
    unfolding ct same tt by blast
  have "payloads u = payloads t" by (simp add: payloads_def u(2,3))
  with u show ?thesis by (simp add: replayCalls_empty)
qed

text \<open>
  C4: a second sort with the same comparator should leave the sequence unchanged and emit
  no move. On the store of the scenario the sequence stays b, c, a, but the second sort
  calls \<^verbatim>\<open>moveAfter\<close> for c and for a again: nothing has assigned their
  \<^verbatim>\<open>index\<close>, so the scan's test \<^verbatim>\<open>i !== item.index\<close> holds for records that did
  not change position. The log below is that of both sorts.
\<close>

theorem second_sort_emits_moves:
  "map_sum id sink (andThen (sortDS noHints byV store_abc) (sortDS noHints byV)) =
     Inr [BeginEdits, CallMoveToStart (KStr ''b''), CallMoveAfter (KStr ''c'') (KStr ''b''),
          CallMoveAfter (KStr ''a'') (KStr ''c''), EndEdits,
          BeginEdits, CallMoveAfter (KStr ''c'') (KStr ''b''),
          CallMoveAfter (KStr ''a'') (KStr ''c''), EndEdits]"
  by code_simp

section \<open>The cached index\<close>

text \<open>
  C3: after \<^verbatim>\<open>moveToStart(k)\<close>, \<^verbatim>\<open>itemsFromKey(k)\<close> should report index 0. On the
  store of the scenario \<^verbatim>\<open>moveToStart("c")\<close> caches c's position 2 in its
  \<^verbatim>\<open>index\<close>, moves c to the front, and the fetch then reports 2 as offset and as
  absolute index for the record at position 0.
\<close>

theorem moveToStart_fetch_stale:
  "andThen (moveToStart (KStr ''c'') store_abc) (itemsFromKey (KStr ''c'') 0 0) =
     Inr \<lparr>fetched = [2, 0, 1], offset = Some 2, absoluteIndex = Some 2, totalCount = 3\<rparr>"
  by code_simp

text \<open>What the moves write to the records, and what the scan of sort reports.\<close>

lemma index_clearMoved: "index (heap (clearMoved r' s) ! r) = index (heap s ! r)"
  by (cases "r' < length (heap s)"; cases "r = r'")
     (simp_all add: clearMoved_def list_update_beyond)

lemma index_assignIndex_kept:
  "index (heap s ! r) = Some v \<Longrightarrow> index (heap (assignIndex r' s) ! r) = Some v"
  by (cases "r' < length (heap s)"; cases "r = r'")
     (simp_all add: assignIndex_def list_update_beyond split: option.splits)

lemma index_assignIndex_set:
  "r < length (heap s) \<Longrightarrow> index (heap s ! r) = None \<Longrightarrow>
     index (heap (assignIndex r s) ! r) = Some (findIndex r s)"
  by (simp add: assignIndex_def)

lemma moveToStart_heap:
  assumes "moveToStart k s = Inr s'"
  shows "keyMap s' = keyMap s \<and>
         (\<exists>r. map_of (keyMap s) (propName k) = Some r \<and>
              (heap s' = heap (assignIndex r s) \<or> heap s' = heap (clearMoved r (assignIndex r s))))"
  using assms by (auto simp: moveToStart_def Let_def split: option.splits if_splits)

lemma moveToEnd_heap:
  assumes "moveToEnd k s = Inr s'"
  shows "keyMap s' = keyMap s \<and>
         (\<exists>r. map_of (keyMap s) (propName k) = Some r \<and>
              (heap s' = heap (assignIndex r s) \<or> heap s' = heap (clearMoved r (assignIndex r s))))"
  using assms by (auto simp: moveToEnd_def Let_def split: option.splits if_splits)

lemma moveAfter_heap:
  assumes "moveAfter k pk ci pi s = Inr s'"
  shows "keyMap s' = keyMap s \<and>
         (\<exists>r. map_of (keyMap s) (propName k) = Some r \<and>
              (heap s' = heap s \<or> heap s' = heap (clearMoved r s)))"
  using assms by (auto simp: moveAfter_def Let_def split: option.splits if_splits)

lemma move_keeps_index:
  assumes "isMove mv" "applyOp mv s = Inr s'" "index (heap s ! r) = Some v"
  shows "index (heap s' ! r) = Some v"
proof (cases mv)
  case (MoveToStart k)
  with assms(2) moveToStart_heap [of k s s'] assms(3) show ?thesis
    by (auto simp: index_clearMoved index_assignIndex_kept)
next
  case (MoveToEnd k)
  with assms(2) moveToEnd_heap [of k s s'] assms(3) show ?thesis
    by (auto simp: index_clearMoved index_assignIndex_kept)
next
  case (MoveAfter k pk ci pi)
  with assms(2) moveAfter_heap [of k pk ci pi s s'] assms(3) show ?thesis
    by (auto simp: index_clearMoved)
qed (use assms(1) in simp_all)

lemma move_keeps_keyMap:
  assumes "isMove mv" "applyOp mv s = Inr s'"
  shows "keyMap s' = keyMap s"
proof (cases mv)
  case (MoveToStart k)
  with assms(2) moveToStart_heap [of k s s'] show ?thesis by simp
next
  case (MoveToEnd k)
  with assms(2) moveToEnd_heap [of k s s'] show ?thesis by simp
next
  case (MoveAfter k pk ci pi)
  with assms(2) moveAfter_heap [of k pk ci pi s s'] show ?thesis by simp
qed (use assms(1) in simp_all)

lemma move_caches_position:
  assumes "map_of (keyMap s) (propName k) = Some r" "r < length (heap s)"
    and "index (heap s ! r) = None" and "mv = MoveToStart k \<or> mv = MoveToEnd k"
    and "applyOp mv s = Inr s'"
  shows "index (heap s' ! r) = Some (findIndex r s)"
  using assms(4)
proof
  assume "mv = MoveToStart k"
  with assms(5) moveToStart_heap [of k s s'] assms(1) show ?thesis
    by (auto simp: index_clearMoved index_assignIndex_set assms(2,3))
next
  assume "mv = MoveToEnd k"
  with assms(5) moveToEnd_heap [of k s s'] assms(1) show ?thesis
    by (auto simp: index_clearMoved index_assignIndex_set assms(2,3))
qed

lemma movedKey_callAt: "movedKey (callAt s i) = Some (key (heap s ! (items s ! i)))"
  by (simp add: callAt_def Let_def)

lemma reported_append: "reported (xs @ ys) k = (reported xs k \<or> reported ys k)"
  by (auto simp: reported_def)

lemma reported_replayCalls:
  "reported (replayCalls s i n) k =
     (\<exists>j. i \<le> j \<and> j < i + n \<and> staleAt s j \<and> key (heap s ! (items s ! j)) = k)"
proof -
  have "Some k \<in> (\<lambda>j. movedKey (callAt s j)) ` {j. i \<le> j \<and> j < i + n \<and> staleAt s j} =
        (\<exists>j. i \<le> j \<and> j < i + n \<and> staleAt s j \<and> key (heap s ! (items s ! j)) = k)"
    unfolding movedKey_callAt by blast
  moreover have "set (filter (staleAt s) [i..<i + n]) = {j. i \<le> j \<and> j < i + n \<and> staleAt s j}"
    by auto
  ultimately show ?thesis
    by (simp add: reported_def replayCalls_def image_image del: set_filter)
qed

lemma sort_reports:
  assumes w: "wellFormed s" and r: "r \<in> set (items s)"
  shows "\<exists>t. sortDS h c s = Inr t \<and>
           reported (drop (length (sink s)) (sink t)) (key (heap s ! r))
             = (index (heap s ! r) \<noteq> Some (findIndex r t))"
proof -
  define order where "order = arraySort (\<lambda>a b. c (data (heap s ! a)) (data (heap s ! b))) (items s)"
  define s1 where "s1 = s\<lparr>items := order\<rparr>"
  from sortDS_spec [OF w, of h c, folded order_def, folded s1_def] obtain t where
    t: "sortDS h c s = Inr t" "items t = order"
       "sink t = sink s @ (if editing s then [] else [BeginEdits])
                        @ replayCalls s1 0 (length (items s))
                        @ (if editing s then [] else [EndEdits])"
    by (elim exE conjE)
  have ms: "mset order = mset (items s)" by (simp add: order_def mset_arraySort)
  then have len: "length order = length (items s)" by (metis size_mset)
  from ms have so: "set order = set (items s)" by (rule mset_eq_setD)
  from w have d: "distinct order"
    using mset_eq_imp_distinct_iff [OF ms] by (simp add: wellFormed_def)
  from r so have rin: "r \<in> set order" by simp
  define p where "p = nat (findIndex r t)"
  have fp: "findIndex r t = int p" and plt: "p < length order" and pr: "order ! p = r"
    using findIndexFrom_mem [OF rin] by (auto simp: p_def findIndex_def t(2))
  have inj: "x = r" if "x \<in> set (items s)" "key (heap s ! x) = key (heap s ! r)" for x
  proof -
    from w that(1) have "map_of (keyMap s) (keyOf s x) = Some x" by (simp add: wellFormed_def)
    moreover from w r have "map_of (keyMap s) (keyOf s r) = Some r" by (simp add: wellFormed_def)
    moreover have "keyOf s x = keyOf s r" using that(2) by (simp add: keyOf_def)
    ultimately show ?thesis by (metis option.inject)
  qed
  have calls: "drop (length (sink s)) (sink t) =
      (if editing s then [] else [BeginEdits])
        @ replayCalls s1 0 (length (items s))
        @ (if editing s then [] else [EndEdits])"
    by (simp add: t(3))
  have "reported (drop (length (sink s)) (sink t)) (key (heap s ! r)) =
          reported (replayCalls s1 0 (length (items s))) (key (heap s ! r))"
    unfolding calls by (simp add: reported_append reported_def)
  also have "\<dots> =
          (\<exists>i < length (items s). staleAt s1 i \<and> key (heap s ! (order ! i)) = key (heap s ! r))"
    by (simp add: reported_replayCalls s1_def)
  also have "\<dots> = staleAt s1 p"
  proof
    assume "\<exists>i < length (items s). staleAt s1 i \<and> key (heap s ! (order ! i)) = key (heap s ! r)"
    then obtain i where i: "i < length (items s)" "staleAt s1 i"
      "key (heap s ! (order ! i)) = key (heap s ! r)" by blast
    from i(1) len so have "order ! i \<in> set (items s)" by (metis nth_mem)
    from inj [OF this i(3)] have "order ! i = order ! p" by (simp add: pr)
    with d i(1) plt len have "i = p" by (simp add: nth_eq_iff_index_eq)
    with i(2) show "staleAt s1 p" by simp
  next
    assume "staleAt s1 p"
    with plt len pr show "\<exists>i < length (items s). staleAt s1 i \<and> key (heap s ! (order ! i)) = key (heap s ! r)"
      by auto
  qed
  also have "\<dots> = (index (heap s ! r) \<noteq> Some (findIndex r t))"
    by (simp add: staleAt_def s1_def pr fp)
  finally show ?thesis using t(1) by blast
qed

lemma moveToStart_c: "applyOp (MoveToStart (KStr ''c'')) store_abc = Inr store_cab"
  by (simp add: moveToStart_def store_abc_def store_cab_def assignIndex_def findIndex_def
      spliceInsert_def spliceRemove_def clampStart_def)

lemma inBijection_store_cab: "inBijection store_cab"
  by (simp add: inBijection_def store_cab_def keyOf_def)

text \<open>
  C10: no move refreshes a record's cached index. Let a move (\<^verbatim>\<open>moveToStart\<close>,
  \<^verbatim>\<open>moveToEnd\<close> or \<^verbatim>\<open>moveAfter\<close>, on any key) run on a store that satisfies the
  invariant, and let \<open>v\<close> be the \<^verbatim>\<open>index\<close> a record had before it, or the position
  the record had before it when the index was unset and the move is a move of that
  record to an end (which caches it). After the move the record's \<^verbatim>\<open>index\<close> is still
  \<open>v\<close>, wherever the record now stands, and the readers use \<open>v\<close>: \<^verbatim>\<open>itemsFromKey\<close>
  reports \<open>v\<close> as offset and absolute index, \<^verbatim>\<open>remove\<close> splices at \<open>v\<close>, and (the
  store still satisfying the invariant) \<^verbatim>\<open>sort\<close> reports the record as moved exactly
  when its position after sorting differs from \<open>v\<close>.
\<close>

theorem cached_index_not_refreshed:
  assumes "inBijection s" and "isMove mv" and "applyOp mv s = Inr s'"
    and "map_of (keyMap s) (propName k) = Some r"
    and "index (heap s ! r) = Some v \<or>
         (index (heap s ! r) = None \<and> (mv = MoveToStart k \<or> mv = MoveToEnd k) \<and>
          v = findIndex r s)"
  shows "index (heap s' ! r) = Some v \<and>
         itemsFromKey k countBefore countAfter s' =
           Inr \<lparr>fetched = items s', offset = Some v, absoluteIndex = Some v,
                totalCount = getCount s'\<rparr> \<and>
         (0 \<le> v \<longrightarrow>
            removeKey k s' = s'\<lparr>items := spliceRemove v (items s'),
                                keyMap := AList.delete (propName k) (keyMap s')\<rparr>) \<and>
         (inBijection s' \<longrightarrow>
            (\<exists>t. sortDS h c s' = Inr t \<and>
                 reported (drop (length (sink s')) (sink t)) (key (heap s' ! r))
                   = (findIndex r t \<noteq> v)))"
proof -
  from assms(1) have w: "wellFormed s" by (simp add: inBijection_wellFormed)
  with assms(4) have rin: "r \<in> set (items s)" and rlt: "r < length (heap s)"
    by (auto simp: wellFormed_def)
  have km: "keyMap s' = keyMap s" using assms(2,3) by (rule move_keeps_keyMap)
  have idx: "index (heap s' ! r) = Some v"
    using assms(5)
  proof
    assume "index (heap s ! r) = Some v"
    with assms(2,3) show ?thesis by (rule move_keeps_index)
  next
    assume a: "index (heap s ! r) = None \<and> (mv = MoveToStart k \<or> mv = MoveToEnd k) \<and>
          v = findIndex r s"
    with move_caches_position [OF assms(4) rlt _ _ assms(3)] show ?thesis by simp
  qed
  have look: "map_of (keyMap s') (propName k) = Some r" using assms(4) km by simp
  have fetch: "itemsFromKey k countBefore countAfter s' =
           Inr \<lparr>fetched = items s', offset = Some v, absoluteIndex = Some v,
                totalCount = getCount s'\<rparr>"
    by (simp add: itemsFromKey_def look idx getCount_def)
  have rem: "removeKey k s' = s'\<lparr>items := spliceRemove v (items s'),
                                keyMap := AList.delete (propName k) (keyMap s')\<rparr>" if "0 \<le> v"
    using that by (simp add: removeKey_def look idx)
  have srt: "\<exists>t. sortDS h c s' = Inr t \<and>
                 reported (drop (length (sink s')) (sink t)) (key (heap s' ! r))
                   = (findIndex r t \<noteq> v)" if b: "inBijection s'"
  proof -
    from b have w': "wellFormed s'" by (simp add: inBijection_wellFormed)
    with look have "r \<in> set (items s')" by (auto simp: wellFormed_def)
    from sort_reports [OF w' this, of h c] obtain t where
      "sortDS h c s' = Inr t"
      "reported (drop (length (sink s')) (sink t)) (key (heap s' ! r))
             = (index (heap s' ! r) \<noteq> Some (findIndex r t))" by blast
    then show ?thesis by (auto simp: idx)
  qed
  show ?thesis using idx fetch rem srt by blast
qed

lemma sort_cab:
  "map_sum id (\<lambda>t. (sink t, findIndex 2 t)) (sortDS noHints byV store_cab) =
     Inr ([BeginEdits, CallMoveToStart (KStr ''b''), CallMoveAfter (KStr ''c'') (KStr ''b''),
           CallMoveAfter (KStr ''a'') (KStr ''c''), EndEdits], 1)"
  by code_simp

theorem cached_index_not_refreshed_witness:
  "inBijection store_abc \<and> isMove (MoveToStart (KStr ''c'')) \<and>
   applyOp (MoveToStart (KStr ''c'')) store_abc = Inr store_cab \<and>
   map_of (keyMap store_abc) (propName (KStr ''c'')) = Some 2 \<and>
   index (heap store_abc ! 2) = None \<and> findIndex 2 store_abc = 2 \<and>
   inBijection store_cab \<and> findIndex 2 store_cab = 0 \<and>
   index (heap store_cab ! 2) = Some 2 \<and>
   itemsFromKey (KStr ''c'') 0 0 store_cab =
     Inr \<lparr>fetched = [2, 0, 1], offset = Some 2, absoluteIndex = Some 2, totalCount = 3\<rparr> \<and>
   items (removeKey (KStr ''c'') store_cab) = [2, 0] \<and>
   map_sum id (\<lambda>t. (reported (sink t) (KStr ''c''), findIndex 2 t))
     (sortDS noHints byV store_cab) = Inr (True, 1)"
proof -
  have m: "isMove (MoveToStart (KStr ''c''))" by simp
  have l: "map_of (keyMap store_abc) (propName (KStr ''c'')) = Some 2"
    and n: "index (heap store_abc ! 2) = None" and f: "findIndex 2 store_abc = 2"
    by (simp_all add: store_abc_def findIndex_def)
  have h5: "index (heap store_abc ! 2) = Some 2 \<or>
         (index (heap store_abc ! 2) = None \<and>
          (MoveToStart (KStr ''c'') = MoveToStart (KStr ''c'') \<or>
           MoveToStart (KStr ''c'') = MoveToEnd (KStr ''c'')) \<and>
          2 = findIndex 2 store_abc)"
    using n f by simp
  have v: "items store_cab = [2, 0, 1]" "getCount store_cab = 3" "sink store_cab = []"
    "key (heap store_cab ! 2) = KStr ''c''" "keyMap store_cab = [(''a'', 0), (''b'', 1), (''c'', 2)]"
    "findIndex 2 store_cab = 0"
    by (simp_all add: store_cab_def getCount_def findIndex_def)
  note main = cached_index_not_refreshed
    [OF inBijection_store_abc m moveToStart_c l h5, of 0 0 noHints byV]
  from main have 1: "index (heap store_cab ! 2) = Some 2" by blast
  from main have 2: "itemsFromKey (KStr ''c'') 0 0 store_cab =
     Inr \<lparr>fetched = [2, 0, 1], offset = Some 2, absoluteIndex = Some 2, totalCount = 3\<rparr>"
    by (simp add: v)
  from main have "removeKey (KStr ''c'') store_cab =
      store_cab\<lparr>items := spliceRemove 2 (items store_cab),
                  keyMap := AList.delete (propName (KStr ''c'')) (keyMap store_cab)\<rparr>"
    by simp
  then have 3: "items (removeKey (KStr ''c'') store_cab) = [2, 0]"
    by (simp add: v spliceRemove_def clampStart_def)
  from main inBijection_store_cab obtain t where
    t: "sortDS noHints byV store_cab = Inr t"
       "reported (drop (length (sink store_cab)) (sink t)) (key (heap store_cab ! 2))
                   = (findIndex 2 t \<noteq> 2)" by blast
  from sort_cab t(1) have ft: "findIndex 2 t = 1" by simp
  with t(2) have "reported (sink t) (KStr ''c'')" by (simp add: v)
  with t(1) ft have 4: "map_sum id (\<lambda>t. (reported (sink t) (KStr ''c''), findIndex 2 t))
     (sortDS noHints byV store_cab) = Inr (True, 1)" by simp
  show ?thesis
    using inBijection_store_abc m moveToStart_c l n f inBijection_store_cab v(6) 1 2 3 4
    by simp
qed

end
